theory Spec2Isabelle
  imports Main "HOL-Library.Word"
begin

unbundle bit_operations_syntax

section \<open>adc.c: sampling, averaging and the calibration table\<close>

text \<open>
  The target is an STM8 built with SDCC: \<open>unsigned char\<close> is 8 bits, \<open>int\<close> and
  \<open>unsigned int\<close> are 16 bits, \<open>unsigned long\<close> is 32 bits. Values are modelled as
  words of those widths, so every wrap-around of the C arithmetic is the wrap-around of
  the word operations.
\<close>

definition ADC_AVERAGING_BITS :: nat where
  "ADC_AVERAGING_BITS = 4"

text \<open>\<open>ADC_RAW_TABLE_BASE_TEMP\<close> is the \<open>int\<close> constant \<open>-520\<close>.\<close>

definition ADC_RAW_TABLE_BASE_TEMP :: "16 word" where
  "ADC_RAW_TABLE_BASE_TEMP = - 520"

definition rawAdc :: "16 word list" where
  "rawAdc = [
    974, 971, 967, 964, 960, 956, 953, 948, 944, 940,
    935, 930, 925, 920, 914, 909, 903, 897, 891, 884,
    877, 871, 864, 856, 849, 841, 833, 825, 817, 809,
    800, 791, 782, 773, 764, 754, 745, 735, 725, 715,
    705, 695, 685, 675, 664, 654, 644, 633, 623, 612,
    601, 591, 580, 570, 559, 549, 538, 528, 518, 507,
    497, 487, 477, 467, 457, 448, 438, 429, 419, 410,
    401, 392, 383, 375, 366, 358, 349, 341, 333, 326,
    318, 310, 303, 296, 289, 282, 275, 269, 262, 256,
    250, 244, 238, 232, 226, 221, 215, 210, 205, 200,
    195, 191, 186, 181, 177, 173, 169, 165, 161, 157,
    153, 149, 146, 142, 139, 136, 132, 129, 126, 123,
    120, 117, 115, 112, 109, 107, 104, 102, 100, 97,
    95, 93, 91, 89, 87, 85, 83, 81, 79, 78,
    76, 74, 73, 71, 69, 68, 67, 65, 64, 62,
    61, 60, 58, 57, 56, 55, 54, 53, 52, 51,
    49, 48, 47, 47, 46]"

text \<open>\<open>sizeof(rawAdc) / sizeof(rawAdc[0])\<close>.\<close>

definition ADC_RAW_TABLE_SIZE :: nat where
  "ADC_RAW_TABLE_SIZE = length rawAdc"

text \<open>The two static variables of adc.c.\<close>

record adc =
  result :: "16 word"
  averaged :: "32 word"

text \<open>\<open>initADC\<close>: the writes to the ADC control registers are outside the model.\<close>

definition initADC :: "adc" where
  "initADC = \<lparr>result = 0, averaged = 0\<rparr>"

definition getAdcResult :: "adc \<Rightarrow> 16 word" where
  "getAdcResult a = result a"

definition getAdcAveraged :: "adc \<Rightarrow> 16 word" where
  "getAdcAveraged a = ucast (drop_bit ADC_AVERAGING_BITS (averaged a))"

text \<open>
  The raw sample read by \<open>ADC1_EOC_handler\<close> from the data registers:
  \<open>result = ADC_DRH << 2; result |= ADC_DRL;\<close>. The shift is computed in \<open>int\<close>.
\<close>

definition adcSample :: "8 word \<Rightarrow> 8 word \<Rightarrow> 16 word" where
  "adcSample ADC_DRH ADC_DRL = push_bit 2 (ucast ADC_DRH :: 16 word) OR ucast ADC_DRL"

text \<open>
  \<open>ADC1_EOC_handler\<close>: the data registers \<open>ADC_DRH\<close> and \<open>ADC_DRL\<close> are the inputs.
  \<open>result << 4\<close> is computed in \<open>unsigned int\<close>, then widened;
  \<open>result - (averaged >> 4)\<close> and the addition in \<open>unsigned long\<close>.
\<close>

definition ADC1_EOC_handler :: "8 word \<Rightarrow> 8 word \<Rightarrow> adc \<Rightarrow> adc" where
  "ADC1_EOC_handler ADC_DRH ADC_DRL a =
    (let r = adcSample ADC_DRH ADC_DRL in
     if averaged a = 0
     then a\<lparr>result := r, averaged := ucast (push_bit ADC_AVERAGING_BITS r)\<rparr>
     else a\<lparr>result := r,
            averaged := averaged a + (ucast r - drop_bit ADC_AVERAGING_BITS (averaged a))\<rparr>)"

text \<open>
  A run of conversion-complete interrupts, one pair of register values per conversion,
  oldest first.
\<close>

fun conversions :: "(8 word \<times> 8 word) list \<Rightarrow> adc \<Rightarrow> adc" where
  "conversions [] a = a"
| "conversions ((h, l) # rs) a = conversions rs (ADC1_EOC_handler h l a)"

text \<open>
  Reading \<open>rawAdc[i]\<close>. An index outside the array is undefined behaviour in C; the
  model makes it an error value that names the index.
\<close>

datatype error = IndexOutOfBounds nat | DivisionByZero

definition rawAdc_at :: "8 word \<Rightarrow> error + 16 word" where
  "rawAdc_at i =
    (if unat i < ADC_RAW_TABLE_SIZE then Inr (rawAdc ! unat i)
     else Inl (IndexOutOfBounds (unat i)))"

text \<open>
  The \<open>while\<close> loop of \<open>getTemperature\<close>. The bounds are \<open>unsigned char\<close>;
  \<open>rightBound - leftBound\<close> and \<open>leftBound + rightBound\<close> are computed in \<open>int\<close>,
  and the halved sum is stored back into an \<open>unsigned char\<close>.
\<close>

function search :: "16 word \<Rightarrow> 8 word \<Rightarrow> 8 word \<Rightarrow> error + (8 word \<times> 8 word)" where
  "search val leftBound rightBound =
    (if int (unat rightBound) - int (unat leftBound) > 1 then
       (let midId = (ucast (drop_bit 1 (ucast leftBound + ucast rightBound :: 16 word)) :: 8 word) in
        case rawAdc_at midId of
          Inl e \<Rightarrow> Inl e
        | Inr x \<Rightarrow> if val > x then search val leftBound midId
                   else search val midId rightBound)
     else Inr (leftBound, rightBound))"
  by pat_completeness auto


lemma unat8_lt: "unat (w :: 8 word) < 256"
  using unsigned_less [of w, where 'a = nat] by simp

lemma midId_unat:
  "unat (ucast (drop_bit 1 (ucast l + ucast r :: 16 word)) :: 8 word)
     = (unat (l :: 8 word) + unat (r :: 8 word)) div 2"
proof -
  have l: "unat l < 256" by (rule unat8_lt)
  have r: "unat r < 256" by (rule unat8_lt)
  have s: "unat (ucast l + ucast r :: 16 word) = unat l + unat r"
    using l r by (simp add: unat_word_ariths unsigned_ucast_eq take_bit_nat_eq_self)
  have d: "unat (drop_bit 1 (ucast l + ucast r :: 16 word)) = (unat l + unat r) div 2"
    by (simp add: unat_drop_bit_eq s drop_bit_eq_div unat_div)
  have "unat (ucast (drop_bit 1 (ucast l + ucast r :: 16 word)) :: 8 word)
        = take_bit 8 ((unat l + unat r) div 2)"
    by (simp only: unsigned_ucast_eq d) simp
  also have "\<dots> = (unat l + unat r) div 2"
    using l r by (intro take_bit_nat_eq_self) simp
  finally show ?thesis .
qed

termination search
proof (relation "measure (\<lambda>(val, l, r). unat r - unat l)", goal_cases)
  case 1
  show ?case by simp
next
  case (2 val l r m x)
  have "unat l + 1 < unat r" using 2(1) by linarith
  then show ?case unfolding 2(2) by (simp add: midId_unat del: One_nat_def)
next
  case (3 val l r m x)
  have "unat l + 1 < unat r" using 3(1) by linarith
  then show ?case unfolding 3(2) by (simp add: midId_unat del: One_nat_def)
qed

text \<open>
  \<open>getTemperature\<close>. The parameter \<open>correction\<close> is what
  \<open>getParamById(PARAM_TEMPERATURE_CORRECTION)\<close> returns (params.c is a collaborator);
  the result is the returned \<open>int\<close> as its 16 bits, to be read with \<open>sint\<close>.
  \<open>leftBound * 10\<close> and \<open>rightBound * 10\<close> are computed in \<open>int\<close>; the difference,
  the product, the quotient and the final sum in \<open>unsigned int\<close>. A zero divisor is
  undefined behaviour in C and an error value here.
\<close>

definition getTemperature :: "16 word \<Rightarrow> adc \<Rightarrow> error + 16 word" where
  "getTemperature correction a =
    (let val = (ucast (drop_bit ADC_AVERAGING_BITS (averaged a)) :: 16 word) in
     case search val 0 (of_nat ADC_RAW_TABLE_SIZE) of
       Inl e \<Rightarrow> Inl e
     | Inr (leftBound, rightBound) \<Rightarrow>
        (case rawAdc_at leftBound of
           Inl e \<Rightarrow> Inl e
         | Inr x \<Rightarrow>
            if val \<ge> x
            then Inr (ADC_RAW_TABLE_BASE_TEMP + ucast leftBound * 10 + correction)
            else (case rawAdc_at rightBound of
                    Inl e \<Rightarrow> Inl e
                  | Inr y \<Rightarrow>
                     if x - y = 0 then Inl DivisionByZero
                     else Inr (ADC_RAW_TABLE_BASE_TEMP
                               + (ucast rightBound * 10 - ((val - y) * 10) div (x - y))
                               + correction))))"

declare search.simps [simp del]

text \<open>What the loop has established when it exits, read on the unsigned values.\<close>

definition search_post :: "16 word \<Rightarrow> 8 word \<Rightarrow> 8 word \<Rightarrow> bool" where
  "search_post val l r \<longleftrightarrow>
     unat r = unat l + 1 \<and> unat r \<le> 165 \<and>
     (unat l = 0 \<or> val \<le> rawAdc ! unat l) \<and>
     (unat r = 165 \<or> rawAdc ! unat r < val)"

text \<open>
  How far the accumulator is from the values whose filtered value is \<open>r\<close>, that is from
  the range \<open>16 * r\<close> to \<open>16 * r + 15\<close>: 0 inside the range, else the distance to its
  nearer end.
\<close>

definition filter_gap :: "16 word \<Rightarrow> adc \<Rightarrow> nat" where
  "filter_gap r a =
    (if unat (averaged a) div 16 < unat r then 16 * unat r - unat (averaged a)
     else if unat r < unat (averaged a) div 16 then unat (averaged a) - (16 * unat r + 15)
     else 0)"

section \<open>buttons.c, display.c and menu.c: the menu state machine\<close>

text \<open>
  The headers menu.h and params.h are not among the sources. The values of their macros
  are parameters of the model: bytes, as the \<open>unsigned char\<close> variables and arguments
  that hold them.
\<close>

record menu_h =
  MENU_ROOT :: "8 word"
  MENU_SELECT_PARAM :: "8 word"
  MENU_CHANGE_PARAM :: "8 word"
  MENU_SET_TIMER :: "8 word"
  MENU_EVENT_PUSH_BUTTON1 :: "8 word"
  MENU_EVENT_PUSH_BUTTON2 :: "8 word"
  MENU_EVENT_PUSH_BUTTON3 :: "8 word"
  MENU_EVENT_RELEASE_BUTTON1 :: "8 word"
  MENU_EVENT_RELEASE_BUTTON2 :: "8 word"
  MENU_EVENT_RELEASE_BUTTON3 :: "8 word"
  MENU_EVENT_CHECK_TIMER :: "8 word"
  PARAM_FERMENTATION_TIME :: "8 word"

text \<open>
  The four menu sections are told apart by their values, and the labels of a C \<open>switch\<close>
  are pairwise different.
\<close>

definition menu_h_ok :: "menu_h \<Rightarrow> bool" where
  "menu_h_ok c \<longleftrightarrow>
     distinct [MENU_ROOT c, MENU_SELECT_PARAM c, MENU_CHANGE_PARAM c, MENU_SET_TIMER c]
     \<and> distinct [MENU_EVENT_PUSH_BUTTON1 c, MENU_EVENT_PUSH_BUTTON2 c,
                 MENU_EVENT_PUSH_BUTTON3 c, MENU_EVENT_RELEASE_BUTTON1 c,
                 MENU_EVENT_RELEASE_BUTTON2 c, MENU_EVENT_RELEASE_BUTTON3 c,
                 MENU_EVENT_CHECK_TIMER c]"

text \<open>An assignment of the macros, for the concrete runs below.\<close>

definition menu_h_example :: "menu_h" where
  "menu_h_example =
    \<lparr>MENU_ROOT = 0, MENU_SELECT_PARAM = 1, MENU_CHANGE_PARAM = 2, MENU_SET_TIMER = 3,
     MENU_EVENT_PUSH_BUTTON1 = 0, MENU_EVENT_PUSH_BUTTON2 = 1, MENU_EVENT_PUSH_BUTTON3 = 2,
     MENU_EVENT_RELEASE_BUTTON1 = 3, MENU_EVENT_RELEASE_BUTTON2 = 4,
     MENU_EVENT_RELEASE_BUTTON3 = 5, MENU_EVENT_CHECK_TIMER = 6,
     PARAM_FERMENTATION_TIME = 9\<rparr>"

text \<open>The time constants of menu.c, compared with the \<open>unsigned int\<close> timer.\<close>

definition MENU_1_SEC_PASSED :: "16 word" where
  "MENU_1_SEC_PASSED = 32"

definition MENU_3_SEC_PASSED :: "16 word" where
  "MENU_3_SEC_PASSED = MENU_1_SEC_PASSED * 3"

definition MENU_5_SEC_PASSED :: "16 word" where
  "MENU_5_SEC_PASSED = MENU_1_SEC_PASSED * 5"

definition MENU_AUTOINC_DELAY :: "16 word" where
  "MENU_AUTOINC_DELAY = MENU_1_SEC_PASSED div 8"

text \<open>
  The calls that menu.c makes into params.c, relay.c and timer.c, which are not among
  the sources: their effect is the record of the call.
\<close>

datatype call =
    setParamId "8 word"
  | incParamId
  | decParamId
  | incParam
  | decParam
  | storeParams
  | enableRelay bool
  | startFTimer
  | stopFTimer

text \<open>
  The state that \<open>feedMenu\<close> changes: the three static variables of menu.c, the
  \<open>displayOff\<close> flag of display.c, and the calls made so far, oldest first.
\<close>

record world =
  menuDisplay :: "8 word"
  menuState :: "8 word"
  timer :: "16 word"
  displayOff :: bool
  calls :: "call list"

text \<open>
  What \<open>feedMenu\<close> reads during one call: the \<open>status\<close> byte of buttons.c, and the
  values that \<open>isRelayEnabled()\<close>, \<open>isFTimer()\<close> and \<open>getUptimeTicks()\<close> return.
\<close>

record env =
  status :: "8 word"
  isRelayEnabled :: bool
  isFTimer :: bool
  getUptimeTicks :: "16 word"

definition BUTTON1_BIT :: "8 word" where
  "BUTTON1_BIT = 0x08"

definition BUTTON2_BIT :: "8 word" where
  "BUTTON2_BIT = 0x10"

definition BUTTON3_BIT :: "8 word" where
  "BUTTON3_BIT = 0x20"

definition getButton1 :: "env \<Rightarrow> bool" where
  "getButton1 e \<longleftrightarrow> status e AND BUTTON1_BIT \<noteq> 0"

definition getButton2 :: "env \<Rightarrow> bool" where
  "getButton2 e \<longleftrightarrow> status e AND BUTTON2_BIT \<noteq> 0"

definition getButton3 :: "env \<Rightarrow> bool" where
  "getButton3 e \<longleftrightarrow> status e AND BUTTON3_BIT \<noteq> 0"

definition setDisplayOff :: "bool \<Rightarrow> world \<Rightarrow> world" where
  "setDisplayOff val w = w\<lparr>displayOff := val\<rparr>"

definition call :: "call \<Rightarrow> world \<Rightarrow> world" where
  "call f w = w\<lparr>calls := calls w @ [f]\<rparr>"

definition initMenu :: "menu_h \<Rightarrow> world \<Rightarrow> world" where
  "initMenu c w = w\<lparr>timer := 0, menuState := MENU_ROOT c, menuDisplay := MENU_ROOT c\<rparr>"

definition getMenuDisplay :: "world \<Rightarrow> 8 word" where
  "getMenuDisplay w = menuDisplay w"

text \<open>
  \<open>feedMenu\<close>, one definition for each branch of its \<open>if\<close> chain on \<open>menuState\<close>. A
  \<open>switch\<close> is the chain of tests of its labels in the order of the source; a label
  without \<open>break\<close> continues with the statements of the next one.
\<close>

definition feedMenu_ROOT :: "menu_h \<Rightarrow> env \<Rightarrow> 8 word \<Rightarrow> world \<Rightarrow> world" where
  "feedMenu_ROOT c e event w =
    (if event = MENU_EVENT_PUSH_BUTTON1 c then
       w\<lparr>timer := 0, menuDisplay := MENU_SET_TIMER c\<rparr>
     else if event = MENU_EVENT_RELEASE_BUTTON1 c then
       (if timer w < MENU_5_SEC_PASSED then w\<lparr>menuState := MENU_SET_TIMER c\<rparr> else w)
         \<lparr>timer := 0\<rparr>
     else if event = MENU_EVENT_CHECK_TIMER c then
       (if timer w > MENU_3_SEC_PASSED then
          (let w = w\<lparr>timer := 0\<rparr> in
           if getButton1 e then
             (call (setParamId 0) w)
               \<lparr>menuState := MENU_SELECT_PARAM c, menuDisplay := MENU_SELECT_PARAM c\<rparr>
           else if getButton2 e then
             (if isRelayEnabled e \<and> \<not> isFTimer e then call (enableRelay False) w
              else call (enableRelay True) w)
           else if getButton3 e then
             (if isFTimer e then call (enableRelay False) (call stopFTimer w)
              else call (enableRelay True) (call startFTimer w))
           else w)
        else w)
     else
       (if timer w > MENU_5_SEC_PASSED then
          w\<lparr>timer := 0, menuState := MENU_ROOT c, menuDisplay := MENU_ROOT c\<rparr>
        else w))"

definition feedMenu_SELECT_PARAM :: "menu_h \<Rightarrow> env \<Rightarrow> 8 word \<Rightarrow> world \<Rightarrow> world" where
  "feedMenu_SELECT_PARAM c e event w =
    (if event = MENU_EVENT_PUSH_BUTTON1 c then
       w\<lparr>menuState := MENU_CHANGE_PARAM c, menuDisplay := MENU_CHANGE_PARAM c, timer := 0\<rparr>
     else if event = MENU_EVENT_RELEASE_BUTTON1 c then w\<lparr>timer := 0\<rparr>
     else if event = MENU_EVENT_PUSH_BUTTON2 c then (call incParamId w)\<lparr>timer := 0\<rparr>
     else if event = MENU_EVENT_RELEASE_BUTTON2 c then w\<lparr>timer := 0\<rparr>
     else if event = MENU_EVENT_PUSH_BUTTON3 c then (call decParamId w)\<lparr>timer := 0\<rparr>
     else if event = MENU_EVENT_RELEASE_BUTTON3 c then w\<lparr>timer := 0\<rparr>
     else if event = MENU_EVENT_CHECK_TIMER c then
       (let w = (if timer w > MENU_1_SEC_PASSED + MENU_AUTOINC_DELAY then
                   (if getButton2 e then (call incParamId w)\<lparr>timer := MENU_1_SEC_PASSED\<rparr>
                    else if getButton3 e then (call decParamId w)\<lparr>timer := MENU_1_SEC_PASSED\<rparr>
                    else w)
                 else w) in
        if timer w > MENU_5_SEC_PASSED then
          (call storeParams (call (setParamId 0) (w\<lparr>timer := 0\<rparr>)))
            \<lparr>menuState := MENU_ROOT c, menuDisplay := MENU_ROOT c\<rparr>
        else w)
     else w)"

definition feedMenu_CHANGE_PARAM :: "menu_h \<Rightarrow> env \<Rightarrow> 8 word \<Rightarrow> world \<Rightarrow> world" where
  "feedMenu_CHANGE_PARAM c e event w =
    (if event = MENU_EVENT_PUSH_BUTTON1 c then
       w\<lparr>menuState := MENU_SELECT_PARAM c, menuDisplay := MENU_SELECT_PARAM c, timer := 0\<rparr>
     else if event = MENU_EVENT_RELEASE_BUTTON1 c then w\<lparr>timer := 0\<rparr>
     else if event = MENU_EVENT_PUSH_BUTTON2 c then (call incParam w)\<lparr>timer := 0\<rparr>
     else if event = MENU_EVENT_RELEASE_BUTTON2 c then w\<lparr>timer := 0\<rparr>
     else if event = MENU_EVENT_PUSH_BUTTON3 c then (call decParam w)\<lparr>timer := 0\<rparr>
     else if event = MENU_EVENT_RELEASE_BUTTON3 c then w\<lparr>timer := 0\<rparr>
     else if event = MENU_EVENT_CHECK_TIMER c then
       (let w = (if timer w > MENU_1_SEC_PASSED + MENU_AUTOINC_DELAY then
                   (if getButton2 e then (call incParam w)\<lparr>timer := MENU_1_SEC_PASSED\<rparr>
                    else if getButton3 e then (call decParam w)\<lparr>timer := MENU_1_SEC_PASSED\<rparr>
                    else w)
                 else w) in
        if getButton1 e \<and> timer w > MENU_3_SEC_PASSED then
          w\<lparr>timer := 0, menuState := MENU_SELECT_PARAM c, menuDisplay := MENU_SELECT_PARAM c\<rparr>
        else if timer w > MENU_5_SEC_PASSED then
          (call storeParams (w\<lparr>timer := 0\<rparr>))
            \<lparr>menuState := MENU_ROOT c, menuDisplay := MENU_ROOT c\<rparr>
        else w)
     else w)"

definition feedMenu_SET_TIMER :: "menu_h \<Rightarrow> env \<Rightarrow> 8 word \<Rightarrow> world \<Rightarrow> world" where
  "feedMenu_SET_TIMER c e event w =
    (if event = MENU_EVENT_PUSH_BUTTON1 c then
       setDisplayOff False (w\<lparr>timer := 0, menuDisplay := MENU_ROOT c\<rparr>)
     else if event = MENU_EVENT_RELEASE_BUTTON1 c then
       (if timer w < MENU_5_SEC_PASSED then
          setDisplayOff False ((call storeParams w)\<lparr>menuState := MENU_ROOT c\<rparr>)
        else w)\<lparr>timer := 0\<rparr>
     else if event = MENU_EVENT_PUSH_BUTTON2 c then
       (call incParam (call (setParamId (PARAM_FERMENTATION_TIME c)) w))\<lparr>timer := 0\<rparr>
     else if event = MENU_EVENT_RELEASE_BUTTON2 c then w\<lparr>timer := 0\<rparr>
     else if event = MENU_EVENT_PUSH_BUTTON3 c then
       (call decParam (call (setParamId (PARAM_FERMENTATION_TIME c)) w))\<lparr>timer := 0\<rparr>
     else if event = MENU_EVENT_RELEASE_BUTTON3 c then w\<lparr>timer := 0\<rparr>
     else if event = MENU_EVENT_CHECK_TIMER c then
       (let blink = (if getButton2 e \<or> getButton3 e then False
                     else (ucast (getUptimeTicks e) :: 8 word) AND 0x80 \<noteq> 0);
            w = (if timer w > MENU_1_SEC_PASSED + MENU_AUTOINC_DELAY then
                   (let w = call (setParamId (PARAM_FERMENTATION_TIME c)) w in
                    if getButton2 e then (call incParam w)\<lparr>timer := MENU_1_SEC_PASSED\<rparr>
                    else if getButton3 e then (call decParam w)\<lparr>timer := MENU_1_SEC_PASSED\<rparr>
                    else w)
                 else w);
            w = setDisplayOff blink w in
        if timer w > MENU_5_SEC_PASSED then
          (let w = w\<lparr>timer := 0\<rparr> in
           if getButton1 e then
             setDisplayOff False
               (w\<lparr>menuState := MENU_SELECT_PARAM c, menuDisplay := MENU_SELECT_PARAM c\<rparr>)
           else
             setDisplayOff False
               ((call storeParams w)\<lparr>menuState := MENU_ROOT c, menuDisplay := MENU_ROOT c\<rparr>))
        else w)
     else w)"

definition feedMenu :: "menu_h \<Rightarrow> env \<Rightarrow> 8 word \<Rightarrow> world \<Rightarrow> world" where
  "feedMenu c e event w =
    (if menuState w = MENU_ROOT c then feedMenu_ROOT c e event w
     else if menuState w = MENU_SELECT_PARAM c then feedMenu_SELECT_PARAM c e event w
     else if menuState w = MENU_CHANGE_PARAM c then feedMenu_CHANGE_PARAM c e event w
     else if menuState w = MENU_SET_TIMER c then feedMenu_SET_TIMER c e event w
     else w)"

text \<open>\<open>refreshMenu\<close>: \<open>timer++\<close> on the 16-bit counter, then the check event.\<close>

definition refreshMenu :: "menu_h \<Rightarrow> env \<Rightarrow> world \<Rightarrow> world" where
  "refreshMenu c e w = feedMenu c e (MENU_EVENT_CHECK_TIMER c) (w\<lparr>timer := timer w + 1\<rparr>)"

text \<open>
  What the interrupts do to the menu: the button interrupt feeds an event byte, the
  timer interrupt calls \<open>refreshMenu\<close>; each comes with what the call reads.
\<close>

datatype input = Feed "8 word" env | Tick env

fun step :: "menu_h \<Rightarrow> input \<Rightarrow> world \<Rightarrow> world" where
  "step c (Feed event e) w = feedMenu c e event w"
| "step c (Tick e) w = refreshMenu c e w"

fun run :: "menu_h \<Rightarrow> input list \<Rightarrow> world \<Rightarrow> world" where
  "run c [] w = w"
| "run c (i # is) w = run c is (step c i w)"

text \<open>The two relations between \<open>menuState\<close> and \<open>menuDisplay\<close> that the claims speak of.\<close>

definition known_sections :: "menu_h \<Rightarrow> 8 word set" where
  "known_sections c =
     {MENU_ROOT c, MENU_SELECT_PARAM c, MENU_CHANGE_PARAM c, MENU_SET_TIMER c}"

definition state_display_pair :: "menu_h \<Rightarrow> world \<Rightarrow> bool" where
  "state_display_pair c w \<longleftrightarrow>
     menuState w = menuDisplay w
     \<or> (menuState w = MENU_ROOT c \<and> menuDisplay w = MENU_SET_TIMER c)
     \<or> (menuState w = MENU_SET_TIMER c \<and> menuDisplay w = MENU_ROOT c)"

definition sections_known :: "menu_h \<Rightarrow> world \<Rightarrow> bool" where
  "sections_known c w \<longleftrightarrow> menuState w \<in> known_sections c \<and> menuDisplay w \<in> known_sections c"

text \<open>
  The value of \<open>timer\<close> after \<open>k\<close> ticks since it was reset, while button 2 or 3 stays
  held in a state with auto-repeat: it counts up to 36 and is then set back to 32 on
  every fifth tick.
\<close>

definition repeat_timer :: "nat \<Rightarrow> nat" where
  "repeat_timer k = (if k < 32 then k else 32 + (k - 32) mod 5)"

text \<open>
  Concrete inputs for the runs below. The buttons pull their pins low and buttons.c keeps
  the complement of the masked port in \<open>status\<close>: \<open>0xC7\<close> with no button pressed,
  \<open>0xCF\<close> with button 1 pressed, \<open>0xD7\<close> with button 2 pressed.
\<close>

definition env_released :: "env" where
  "env_released = \<lparr>status = 0xC7, isRelayEnabled = False, isFTimer = False, getUptimeTicks = 0\<rparr>"

definition env_button1 :: "env" where
  "env_button1 = \<lparr>status = 0xCF, isRelayEnabled = False, isFTimer = False, getUptimeTicks = 0\<rparr>"

definition env_button2 :: "env" where
  "env_button2 = \<lparr>status = 0xD7, isRelayEnabled = False, isFTimer = False, getUptimeTicks = 0\<rparr>"

definition world_reset :: "world" where
  "world_reset = \<lparr>menuDisplay = 0, menuState = 0, timer = 0, displayOff = False, calls = []\<rparr>"


section \<open>Properties of the calibration table and of the search\<close>

lemma rawAdc_length: "length rawAdc = 165"
  by (simp add: rawAdc_def)

lemma search_inv:
  assumes "unat l < unat r" "unat r \<le> 165"
    and "unat l = 0 \<or> val \<le> rawAdc ! unat l"
    and "unat r = 165 \<or> rawAdc ! unat r < val"
  shows "\<exists>l' r'. search val l r = Inr (l', r') \<and> search_post val l' r'"
  using assms
proof (induction val l r rule: search.induct)
  case (1 val l r)
  let ?m = "ucast (drop_bit 1 (ucast l + ucast r :: 16 word)) :: 8 word"
  have m: "unat ?m = (unat l + unat r) div 2" by (rule midId_unat)
  show ?case
  proof (cases "int (unat r) - int (unat l) > 1")
    case False
    then have "unat r = unat l + 1" using "1.prems"(1) by linarith
    then have "search_post val l r" using "1.prems" by (simp add: search_post_def)
    moreover have "search val l r = Inr (l, r)" using False by (subst search.simps) simp
    ultimately show ?thesis by blast
  next
    case True
    have lt: "unat l < unat ?m" "unat ?m < unat r" using True m by linarith+
    have at: "rawAdc_at ?m = Inr (rawAdc ! unat ?m)"
      using lt "1.prems"(2) by (simp add: rawAdc_at_def ADC_RAW_TABLE_SIZE_def rawAdc_length)
    show ?thesis
    proof (cases "val > rawAdc ! unat ?m")
      case gt: True
      have "\<exists>l' r'. search val l ?m = Inr (l', r') \<and> search_post val l' r'"
        using lt "1.prems" gt by (intro "1.IH"(1) [OF True refl at gt]) auto
      moreover have "search val l r = search val l ?m"
        using True at gt by (subst search.simps) (simp add: Let_def)
      ultimately show ?thesis by simp
    next
      case le: False
      have "\<exists>l' r'. search val ?m r = Inr (l', r') \<and> search_post val l' r'"
        using lt "1.prems" le by (intro "1.IH"(2) [OF True refl at le]) auto
      moreover have "search val l r = search val ?m r"
        using True at le by (subst search.simps) (simp add: Let_def)
      ultimately show ?thesis by simp
    qed
  qed
qed

lemma search_top:
  "\<exists>l r. search val 0 (of_nat ADC_RAW_TABLE_SIZE) = Inr (l, r) \<and> search_post val l r"
  by (rule search_inv) (simp_all add: ADC_RAW_TABLE_SIZE_def rawAdc_length)

lemma rawAdc_succ: "successively (\<ge>) rawAdc"
  by (simp add: rawAdc_def)

lemma rawAdc_sorted: "sorted_wrt (\<ge>) rawAdc"
  using rawAdc_succ by (simp add: successively_conv_sorted_wrt transp_on_def)

lemma rawAdc_strict_lo: "sorted_wrt (>) (take 163 rawAdc)"
proof -
  have "successively (>) (take 163 rawAdc)" by (simp add: rawAdc_def)
  then show ?thesis by (simp add: successively_conv_sorted_wrt transp_on_def)
qed

lemma rawAdc_strict_hi: "sorted_wrt (>) (drop 163 rawAdc)"
  by (simp add: rawAdc_def)

lemma rawAdc_mono: "i \<le> j \<Longrightarrow> j < 165 \<Longrightarrow> rawAdc ! j \<le> rawAdc ! i"
proof (cases "i = j")
  case False
  assume "i \<le> j" "j < 165"
  with False have "i < j" "j < length rawAdc" by (simp_all add: rawAdc_length)
  then show ?thesis using sorted_wrt_nth_less [OF rawAdc_sorted] by blast
qed simp

lemma rawAdc_first: "rawAdc ! 0 = 974" by (simp add: rawAdc_def)
lemma rawAdc_last: "rawAdc ! 164 = 46" by (simp add: rawAdc_def)
lemma rawAdc_162: "rawAdc ! 162 = 47" by (simp add: rawAdc_def)
lemma rawAdc_163: "rawAdc ! 163 = 47" by (simp add: rawAdc_def)

lemma rawAdc_le: "i < 165 \<Longrightarrow> rawAdc ! i \<le> 974"
  using rawAdc_mono [of 0 i] by (simp add: rawAdc_first)

lemma rawAdc_ge: "i < 165 \<Longrightarrow> 46 \<le> rawAdc ! i"
  using rawAdc_mono [of i 164] by (simp add: rawAdc_last)

lemma rawAdc_strict_adj: "i < 164 \<Longrightarrow> i \<noteq> 162 \<Longrightarrow> rawAdc ! Suc i < rawAdc ! i"
proof -
  assume i: "i < 164" "i \<noteq> 162"
  show ?thesis
  proof (cases "i < 162")
    case True
    then have "take 163 rawAdc ! Suc i < take 163 rawAdc ! i"
      using sorted_wrt_nth_less [OF rawAdc_strict_lo, of i "Suc i"] by (simp add: rawAdc_length)
    then show ?thesis using True by simp
  next
    case False
    with i have "i = 163" by simp
    then show ?thesis by (simp add: rawAdc_def)
  qed
qed

lemma rawAdc_strict: 
  assumes "i < j" "j < 165" "\<not> (i = 162 \<and> j = 163)"
  shows "rawAdc ! j < rawAdc ! i"
proof (cases "i = 162")
  case True
  then have "163 < j" using assms by simp
  then have "rawAdc ! j \<le> rawAdc ! 164" using assms rawAdc_mono [of 164 j] by simp
  then have "rawAdc ! j \<le> 46" by (simp add: rawAdc_last)
  moreover have "(46 :: 16 word) < 47" by simp
  ultimately have "rawAdc ! j < 47" by (rule order.strict_trans1)
  then show ?thesis using True by (simp add: rawAdc_162)
next
  case False
  have "rawAdc ! j \<le> rawAdc ! Suc i" using assms rawAdc_mono [of "Suc i" j] by simp
  moreover have "rawAdc ! Suc i < rawAdc ! i" using assms False by (intro rawAdc_strict_adj) simp_all
  ultimately show ?thesis by simp
qed

lemma search_postD:
  assumes "search_post val l r"
  shows "unat r = unat l + 1" "unat r \<le> 165"
    "unat l = 0 \<or> val \<le> rawAdc ! unat l" "unat r = 165 \<or> rawAdc ! unat r < val"
  using assms unfolding search_post_def by blast+

lemma search_post_between:
  assumes "search_post val l r" "i \<le> 163" "rawAdc ! Suc i < val" "val < rawAdc ! i"
  shows "unat l = i"
proof (rule ccontr)
  assume ne: "unat l \<noteq> i"
  from assms(1) have p: "unat r = unat l + 1" "unat r \<le> 165"
    "unat l = 0 \<or> val \<le> rawAdc ! unat l" "unat r = 165 \<or> rawAdc ! unat r < val"
    by (rule search_postD)+
  show False
  proof (cases "unat l < i")
    case True
    then have "rawAdc ! i \<le> rawAdc ! unat r" using p(1) assms(2) by (intro rawAdc_mono) simp_all
    moreover have "rawAdc ! unat r < val" using p True assms(2) by auto
    ultimately show False using assms(4) by simp
  next
    case False
    with ne have gt: "Suc i \<le> unat l" by simp
    have "rawAdc ! unat l \<le> rawAdc ! Suc i" using gt p by (intro rawAdc_mono) simp_all
    moreover have "val \<le> rawAdc ! unat l" using p gt by auto
    ultimately show False using assms(3) by simp
  qed
qed

lemma search_post_exact:
  assumes "search_post val l r" "i \<le> 163" "i \<noteq> 162" "val = rawAdc ! i"
  shows "unat l = i"
proof (rule ccontr)
  assume ne: "unat l \<noteq> i"
  from assms(1) have p: "unat r = unat l + 1" "unat r \<le> 165"
    "unat l = 0 \<or> val \<le> rawAdc ! unat l" "unat r = 165 \<or> rawAdc ! unat r < val"
    by (rule search_postD)+
  show False
  proof (cases "unat l < i")
    case True
    then have "rawAdc ! i \<le> rawAdc ! unat r" using p(1) assms(2) by (intro rawAdc_mono) simp_all
    moreover have "rawAdc ! unat r < val" using p True assms(2) by auto
    ultimately show False using assms(4) by simp
  next
    case False
    with ne have gt: "i < unat l" by simp
    have "rawAdc ! unat l < rawAdc ! i" using gt p assms(3) by (intro rawAdc_strict) simp_all
    moreover have "val \<le> rawAdc ! unat l" using p gt by auto
    ultimately show False using assms(4) by simp
  qed
qed

lemma search_post_high:
  assumes "search_post val l r" "974 \<le> val"
  shows "unat l = 0"
proof (rule ccontr)
  assume ne: "unat l \<noteq> 0"
  from assms(1) have p: "unat r = unat l + 1" "unat r \<le> 165"
    "unat l = 0 \<or> val \<le> rawAdc ! unat l" 
    by (rule search_postD)+
  have "rawAdc ! unat l < rawAdc ! 0" using ne p by (intro rawAdc_strict) simp_all
  moreover have "val \<le> rawAdc ! unat l" using p ne by auto
  ultimately show False using assms(2) by (simp add: rawAdc_first)
qed

lemma rawAdc_at_in: "unat i < 165 \<Longrightarrow> rawAdc_at i = Inr (rawAdc ! unat i)"
  by (simp add: rawAdc_at_def ADC_RAW_TABLE_SIZE_def rawAdc_length)

text \<open>The two branches after the search, for a bracket the search can return.\<close>

lemma getTemperature_branches:
  assumes "46 \<le> getAdcAveraged a"
  shows "\<exists>l r. search_post (getAdcAveraged a) l r \<and>
     (if rawAdc ! unat l \<le> getAdcAveraged a
      then getTemperature correction a =
             Inr (ADC_RAW_TABLE_BASE_TEMP + ucast l * 10 + correction)
      else unat r < 165 \<and> rawAdc ! unat r < getAdcAveraged a \<and>
           getTemperature correction a =
             Inr (ADC_RAW_TABLE_BASE_TEMP
                  + (ucast r * 10 - ((getAdcAveraged a - rawAdc ! unat r) * 10)
                       div (rawAdc ! unat l - rawAdc ! unat r))
                  + correction))"
proof -
  let ?val = "getAdcAveraged a"
  obtain l r where s: "search ?val 0 (of_nat ADC_RAW_TABLE_SIZE) = Inr (l, r)"
    and post: "search_post ?val l r"
    using search_top [of ?val] by blast
  from post have p: "unat r = unat l + 1" "unat r \<le> 165"
    "unat r = 165 \<or> rawAdc ! unat r < ?val"
    by (rule search_postD)+
  have l: "rawAdc_at l = Inr (rawAdc ! unat l)" using p by (intro rawAdc_at_in) simp
  show ?thesis
  proof (cases "rawAdc ! unat l \<le> ?val")
    case True
    then have "getTemperature correction a =
             Inr (ADC_RAW_TABLE_BASE_TEMP + ucast l * 10 + correction)"
      using s l by (simp add: getTemperature_def Let_def getAdcAveraged_def)
    then show ?thesis using post True by auto
  next
    case False
    have r165: "unat r < 165"
    proof (rule ccontr)
      assume "\<not> unat r < 165"
      then have "unat l = 164" using p by simp
      then show False using False assms by (simp add: rawAdc_last)
    qed
    then have lt: "rawAdc ! unat r < ?val" using p by auto
    have r: "rawAdc_at r = Inr (rawAdc ! unat r)" using r165 by (intro rawAdc_at_in)
    have "rawAdc ! unat r < rawAdc ! unat l" using lt False by simp
    then have nz: "rawAdc ! unat l - rawAdc ! unat r \<noteq> 0" by simp
    have "getTemperature correction a =
             Inr (ADC_RAW_TABLE_BASE_TEMP
                  + (ucast r * 10 - ((?val - rawAdc ! unat r) * 10)
                       div (rawAdc ! unat l - rawAdc ! unat r))
                  + correction)"
      using s l r nz False by (simp add: getTemperature_def Let_def getAdcAveraged_def)
    then show ?thesis using post False r165 lt by auto
  qed
qed

lemma sint_base:
  assumes "unat (W :: 16 word) \<le> 2000"
  shows "sint (ADC_RAW_TABLE_BASE_TEMP + W) = int (unat W) - 520"
proof -
  have "ADC_RAW_TABLE_BASE_TEMP + W = word_of_int (int (unat W) - 520)"
    by (simp add: ADC_RAW_TABLE_BASE_TEMP_def)
  then have "sint (ADC_RAW_TABLE_BASE_TEMP + W) = signed_take_bit 15 (int (unat W) - 520)"
    by (simp only: sint_sbintrunc') simp
  also have "\<dots> = int (unat W) - 520"
  proof -
    have "int (unat W) \<le> int 2000" using assms by (simp only: of_nat_le_iff)
    moreover have "0 \<le> int (unat W)" by (rule of_nat_0_le_iff)
    ultimately have "- (2 ^ 15) \<le> int (unat W) - 520" "int (unat W) - 520 < 2 ^ 15"
      by simp_all
    then show ?thesis by (rule signed_take_bit_int_eq_self)
  qed
  finally show ?thesis .
qed

lemma unat_ucast8: "unat (ucast (l :: 8 word) :: 16 word) = unat l"
  by (simp add: unsigned_ucast_eq take_bit_nat_eq_self unat8_lt [THEN less_trans])

lemma unat_index10:
  assumes "unat (l :: 8 word) \<le> 165"
  shows "unat (ucast l * 10 :: 16 word) = unat l * 10"
proof -
  have "unat (ucast l :: 16 word) * unat (10 :: 16 word) < 2 ^ LENGTH(16)"
    using assms by (simp add: unat_ucast8)
  then have "unat (ucast l * 10 :: 16 word) = unat (ucast l :: 16 word) * unat (10 :: 16 word)"
    by (simp only: unat_mult_lem)
  then show ?thesis by (simp add: unat_ucast8)
qed

lemma getTemperature_at_entry:
  assumes "i \<le> 163" "i \<noteq> 162" "getAdcAveraged a = rawAdc ! i"
  shows "getTemperature correction a
         = Inr (ADC_RAW_TABLE_BASE_TEMP + 10 * of_nat i + correction)"
proof -
  have ge: "46 \<le> getAdcAveraged a" using assms by (simp add: rawAdc_ge)
  obtain l r where post: "search_post (getAdcAveraged a) l r"
    and br: "if rawAdc ! unat l \<le> getAdcAveraged a
      then getTemperature correction a =
             Inr (ADC_RAW_TABLE_BASE_TEMP + ucast l * 10 + correction)
      else unat r < 165 \<and> rawAdc ! unat r < getAdcAveraged a \<and>
           getTemperature correction a =
             Inr (ADC_RAW_TABLE_BASE_TEMP
                  + (ucast r * 10 - ((getAdcAveraged a - rawAdc ! unat r) * 10)
                       div (rawAdc ! unat l - rawAdc ! unat r))
                  + correction)"
    using getTemperature_branches [OF ge, of correction] by blast
  have l: "unat l = i" using post assms by (rule search_post_exact)
  have "(ucast l :: 16 word) = of_nat (unat l)" by simp
  then have "(ucast l :: 16 word) = of_nat i" by (simp only: l)
  then show ?thesis using br l assms(3) by (simp add: mult.commute)
qed

lemma sint_entry:
  assumes "i \<le> 165"
  shows "sint (ADC_RAW_TABLE_BASE_TEMP + 10 * of_nat i :: 16 word) = - 520 + 10 * int i"
proof -
  have "unat (of_nat (10 * i) :: 16 word) = 10 * i"
    using assms by (intro of_nat_inverse) simp_all
  moreover have "(10 * of_nat i :: 16 word) = of_nat (10 * i)" by simp
  ultimately have u: "unat (10 * of_nat i :: 16 word) = 10 * i" by (simp only:)
  then have "unat (10 * of_nat i :: 16 word) \<le> 2000" using assms by simp
  then have "sint (ADC_RAW_TABLE_BASE_TEMP + 10 * of_nat i :: 16 word)
             = int (unat (10 * of_nat i :: 16 word)) - 520"
    by (rule sint_base)
  then show ?thesis by (simp add: u)
qed

lemma sint_plus_in_range:
  fixes b c :: "16 word"
  assumes "- 32768 \<le> sint b + sint c" "sint b + sint c \<le> 32767"
  shows "sint (b + c) = sint b + sint c"
proof -
  have "sint (b + c) = signed_take_bit 15 (sint b + sint c)"
    by (simp add: sint_word_ariths)
  also have "\<dots> = sint b + sint c"
    using assms by (intro signed_take_bit_int_eq_self) simp_all
  finally show ?thesis .
qed

lemma unat_interp_exact:
  fixes val x y :: "16 word" and r :: "8 word"
  assumes "y < val" "val < x" "x \<le> 974" "1 \<le> unat r" "unat r \<le> 165"
  shows "unat (ucast r * 10 - ((val - y) * 10) div (x - y))
         = unat r * 10 - (10 * (unat val - unat y)) div (unat x - unat y)"
    and "(10 * (unat val - unat y)) div (unat x - unat y) < 10"
proof -
  have yv: "unat y < unat val" and vx: "unat val < unat x" and x: "unat x \<le> 974"
    using assms by (simp_all add: word_less_nat_alt word_le_nat_alt)
  have d: "unat (val - y) = unat val - unat y"
    using yv by (intro unat_sub) (simp add: word_le_nat_alt)
  have D: "unat (x - y) = unat x - unat y"
    using yv vx by (intro unat_sub) (simp add: word_le_nat_alt)
  have "unat (val - y) * unat (10 :: 16 word) < 2 ^ LENGTH(16)"
    using d yv vx x by simp
  then have "unat ((val - y) * 10) = unat (val - y) * unat (10 :: 16 word)"
    by (simp only: unat_mult_lem)
  then have n: "unat ((val - y) * 10) = 10 * (unat val - unat y)" by (simp add: d)
  define q where "q = (10 * (unat val - unat y)) div (unat x - unat y)"
  have uq: "unat (((val - y) * 10) div (x - y)) = q"
    by (simp only: unat_div n D q_def)
  have "10 * (unat val - unat y) < 10 * (unat x - unat y)" using yv vx by simp
  then have q10: "q < 10" unfolding q_def
    using yv vx by (intro less_mult_imp_div_less) simp
  have r10: "unat (ucast r * 10 :: 16 word) = unat r * 10" using assms by (intro unat_index10)
  have "q \<le> unat r * 10" using q10 assms(4) by linarith
  then have "((val - y) * 10) div (x - y) \<le> (ucast r * 10 :: 16 word)"
    by (simp only: word_le_nat_alt uq r10)
  then have "unat (ucast r * 10 - ((val - y) * 10) div (x - y)) = unat r * 10 - q"
    by (simp only: unat_sub uq r10)
  then show "unat (ucast r * 10 - ((val - y) * 10) div (x - y))
         = unat r * 10 - (10 * (unat val - unat y)) div (unat x - unat y)"
    by (simp only: q_def)
  show "(10 * (unat val - unat y)) div (unat x - unat y) < 10"
    using q10 by (simp only: q_def)
qed

section \<open>Properties of the averaging filter\<close>

lemma adcSample_10bit: "take_bit 10 (adcSample h l) = adcSample h l"
  unfolding adcSample_def
  by (rule bit_word_eqI) (auto simp add: bit_simps dest: bit_imp_le_length)

lemma adcSample_le: "unat (adcSample h l) \<le> 1023"
proof -
  have "unat (take_bit 10 (adcSample h l)) < 2 ^ 10"
    unfolding unsigned_take_bit_eq by (rule take_bit_nat_less_exp)
  then show ?thesis by (simp add: adcSample_10bit)
qed

lemma unat_getAdcAveraged:
  assumes "unat (averaged a) \<le> 16383"
  shows "unat (getAdcAveraged a) = unat (averaged a) div 16"
proof -
  have "unat (drop_bit 4 (averaged a)) = unat (averaged a) div 16"
    by (simp add: unat_drop_bit_eq drop_bit_eq_div unat_div)
  moreover have "unat (averaged a) div 16 < 2 ^ 16" using assms by simp
  ultimately show ?thesis
    by (simp add: getAdcAveraged_def ADC_AVERAGING_BITS_def unsigned_ucast_eq take_bit_nat_eq_self)
qed

lemma unat_seed:
  assumes "unat (r :: 16 word) \<le> 1023"
  shows "unat (ucast (push_bit 4 r) :: 32 word) = 16 * unat r"
proof -
  have "unat (push_bit 4 r) = take_bit 16 (push_bit 4 (unat r))"
    by (simp add: unsigned_push_bit_eq)
  also have "\<dots> = push_bit 4 (unat r)"
    using assms by (intro take_bit_nat_eq_self) (simp add: push_bit_eq_mult)
  finally have "unat (push_bit 4 r) = 16 * unat r" by (simp add: push_bit_eq_mult)
  moreover have "16 * unat r < 2 ^ 32" using assms by simp
  ultimately show ?thesis by (simp add: unsigned_ucast_eq take_bit_nat_eq_self)
qed

lemma unat_blend:
  fixes A :: "32 word" and r :: "16 word"
  assumes "unat A \<le> 16383" "unat r \<le> 1023"
  shows "unat (A + (ucast r - drop_bit 4 A)) = unat A - unat A div 16 + unat r"
proof -
  have q: "unat (drop_bit 4 A) = unat A div 16"
    by (simp add: unat_drop_bit_eq drop_bit_eq_div unat_div)
  have "drop_bit 4 A \<le> A" by (simp add: word_le_nat_alt q)
  then have s: "unat (A - drop_bit 4 A) = unat A - unat A div 16"
    by (simp add: unat_sub q)
  have ur: "unat (ucast r :: 32 word) = unat r"
    using assms(2) by (simp add: unsigned_ucast_eq take_bit_nat_eq_self)
  have "unat (A - drop_bit 4 A) + unat (ucast r :: 32 word) < 2 ^ LENGTH(32)"
    using assms by (simp add: s ur)
  then have "unat ((A - drop_bit 4 A) + ucast r) = unat (A - drop_bit 4 A) + unat (ucast r :: 32 word)"
    by (simp only: unat_add_lem)
  moreover have "A + (ucast r - drop_bit 4 A) = (A - drop_bit 4 A) + ucast r" by simp
  ultimately show ?thesis by (simp only: s ur)
qed

text \<open>One conversion, read on the unsigned values.\<close>

lemma handler_unat:
  assumes "unat (averaged a) \<le> 16383"
  shows "unat (averaged (ADC1_EOC_handler h l a)) =
           (if averaged a = 0 then 16 * unat (adcSample h l)
            else unat (averaged a) - unat (averaged a) div 16 + unat (adcSample h l))"
  using assms adcSample_le [of h l]
  by (simp add: ADC1_EOC_handler_def Let_def ADC_AVERAGING_BITS_def unat_seed unat_blend)

lemma handler_bounded:
  assumes "unat (averaged a) \<le> 16383"
  shows "unat (averaged (ADC1_EOC_handler h l a)) \<le> 16383"
  using assms adcSample_le [of h l] by (simp add: handler_unat) linarith

lemma handler_result: "result (ADC1_EOC_handler h l a) = adcSample h l"
  by (simp add: ADC1_EOC_handler_def Let_def)

text \<open>One conversion moves the filtered value towards the sample, never past it.\<close>

lemma handler_towards:
  assumes "unat (averaged a) \<le> 16383"
  shows "min (getAdcAveraged a) (adcSample h l) \<le> getAdcAveraged (ADC1_EOC_handler h l a)
       \<and> getAdcAveraged (ADC1_EOC_handler h l a) \<le> max (getAdcAveraged a) (adcSample h l)"
proof -
  let ?A = "unat (averaged a)" and ?r = "unat (adcSample h l)"
  let ?a' = "ADC1_EOC_handler h l a"
  have r: "?r \<le> 1023" by (rule adcSample_le)
  have b': "unat (averaged ?a') \<le> 16383" using assms by (rule handler_bounded)
  have q: "unat (getAdcAveraged a) = ?A div 16" using assms by (rule unat_getAdcAveraged)
  have q': "unat (getAdcAveraged ?a') = unat (averaged ?a') div 16"
    using b' by (rule unat_getAdcAveraged)
  have "min (?A div 16) ?r \<le> unat (averaged ?a') div 16
        \<and> unat (averaged ?a') div 16 \<le> max (?A div 16) ?r"
  proof (cases "averaged a = 0")
    case True
    then show ?thesis using assms by (simp add: handler_unat)
  next
    case False
    then have "unat (averaged ?a') = ?A - ?A div 16 + ?r" using assms by (simp add: handler_unat)
    then show ?thesis by (simp add: min_def max_def) linarith
  qed
  then show ?thesis
    by (simp add: min_def max_def word_le_nat_alt q q' split: if_splits)
qed

lemma conversions_snoc:
  "conversions (rs @ [(h, l)]) a = ADC1_EOC_handler h l (conversions rs a)"
  by (induction rs a rule: conversions.induct) simp_all

lemma conversions_bounded:
  "unat (averaged a) \<le> 16383 \<Longrightarrow> unat (averaged (conversions rs a)) \<le> 16383"
  by (induction rs a rule: conversions.induct) (simp_all add: handler_bounded)

lemma initADC_bounded: "unat (averaged initADC) \<le> 16383"
  by (simp add: initADC_def)

text \<open>The first conversion after a reset of the accumulator: the sample is the seed.\<close>

lemma handler_seed:
  assumes "averaged a = 0"
  shows "averaged (ADC1_EOC_handler h l a) = ucast (push_bit 4 (adcSample h l))"
    and "getAdcAveraged (ADC1_EOC_handler h l a) = adcSample h l"
proof -
  show s: "averaged (ADC1_EOC_handler h l a) = ucast (push_bit 4 (adcSample h l))"
    using assms by (simp add: ADC1_EOC_handler_def Let_def ADC_AVERAGING_BITS_def)
  have u: "unat (averaged (ADC1_EOC_handler h l a)) = 16 * unat (adcSample h l)"
    unfolding s by (rule unat_seed) (rule adcSample_le)
  have "unat (averaged (ADC1_EOC_handler h l a)) \<le> 16383"
    using adcSample_le [of h l] by (simp add: u)
  then have "unat (getAdcAveraged (ADC1_EOC_handler h l a)) = unat (adcSample h l)"
    by (simp add: unat_getAdcAveraged u)
  then show "getAdcAveraged (ADC1_EOC_handler h l a) = adcSample h l"
    by (simp only: word_unat_eq_iff)
qed

text \<open>A sample equal to the seed leaves the accumulator as it is.\<close>

lemma handler_hold:
  assumes "averaged a = ucast (push_bit 4 (adcSample h l))"
  shows "averaged (ADC1_EOC_handler h l a) = averaged a"
proof -
  have u: "unat (averaged a) = 16 * unat (adcSample h l)"
    unfolding assms by (rule unat_seed) (rule adcSample_le)
  then have b: "unat (averaged a) \<le> 16383" using adcSample_le [of h l] by simp
  have "unat (averaged (ADC1_EOC_handler h l a)) = 16 * unat (adcSample h l)"
  proof (cases "averaged a = 0")
    case True
    then show ?thesis using b by (simp add: handler_unat)
  next
    case False
    then show ?thesis using b by (simp add: handler_unat u)
  qed
  then show ?thesis by (simp only: word_unat_eq_iff u)
qed

lemma conversions_hold:
  assumes "averaged a = ucast (push_bit 4 (adcSample h l))"
  shows "averaged (conversions (replicate n (h, l)) a) = averaged a"
  using assms
proof (induction n arbitrary: a)
  case 0
  show ?case by simp
next
  case (Suc n)
  have "averaged (ADC1_EOC_handler h l a) = ucast (push_bit 4 (adcSample h l))"
    using Suc.prems handler_hold [of a h l] by simp
  then have "averaged (conversions (replicate n (h, l)) (ADC1_EOC_handler h l a))
             = averaged (ADC1_EOC_handler h l a)"
    by (rule Suc.IH)
  then show ?case using Suc.prems handler_hold [of a h l] by simp
qed

lemma min_widen: "(m :: 'a :: linorder) \<le> q \<Longrightarrow> min r m \<le> min q r"
  by (auto simp: min_def)

lemma max_widen: "(q :: 'a :: linorder) \<le> m \<Longrightarrow> max q r \<le> max r m"
  by (auto simp: max_def)

lemma filter_gap_zero:
  assumes "unat (averaged a) \<le> 16383"
  shows "filter_gap r a = 0 \<longleftrightarrow> getAdcAveraged a = r"
proof -
  have q: "unat (getAdcAveraged a) = unat (averaged a) div 16"
    using assms by (rule unat_getAdcAveraged)
  have "filter_gap r a = 0 \<longleftrightarrow> unat (averaged a) div 16 = unat r"
    unfolding filter_gap_def by (auto split: if_splits)
  then show ?thesis by (simp add: word_unat_eq_iff q)
qed

lemma filter_gap_le:
  assumes "unat (averaged a) \<le> 16383" "unat r \<le> 1023"
  shows "filter_gap r a \<le> 16384"
proof -
  have "16 * unat r - unat (averaged a) \<le> 16384" using assms(2) by linarith
  moreover have "unat (averaged a) - (16 * unat r + 15) \<le> 16384" using assms(1) by linarith
  ultimately show ?thesis unfolding filter_gap_def by simp
qed

text \<open>One conversion closes the gap to its sample by at least one unit.\<close>

lemma handler_gap:
  assumes "unat (averaged a) \<le> 16383"
  shows "filter_gap (adcSample h l) (ADC1_EOC_handler h l a) \<le> filter_gap (adcSample h l) a - 1"
proof -
  let ?A = "unat (averaged a)" and ?R = "unat (adcSample h l)"
  let ?A' = "unat (averaged (ADC1_EOC_handler h l a))"
  have R: "?R \<le> 1023" by (rule adcSample_le)
  have A': "?A' = (if averaged a = 0 then 16 * ?R else ?A - ?A div 16 + ?R)"
    using assms by (rule handler_unat)
  have z: "averaged a = 0 \<longleftrightarrow> ?A = 0" by (simp add: unat_eq_0)
  have "(if ?A' div 16 < ?R then 16 * ?R - ?A'
         else if ?R < ?A' div 16 then ?A' - (16 * ?R + 15) else 0)
        \<le> (if ?A div 16 < ?R then 16 * ?R - ?A
            else if ?R < ?A div 16 then ?A - (16 * ?R + 15) else 0) - 1"
  proof (cases "?A = 0")
    case True
    then show ?thesis using A' z by simp
  next
    case False
    then have "?A' = ?A - ?A div 16 + ?R" using A' z by simp
    then show ?thesis by (simp split: if_splits) linarith
  qed
  then show ?thesis unfolding filter_gap_def .
qed

lemma conversions_append:
  "conversions (xs @ ys) a = conversions ys (conversions xs a)"
  by (induction xs a rule: conversions.induct) simp_all

lemma conversions_replicate_Suc:
  "conversions (rs @ replicate (Suc n) (h, l)) a
   = ADC1_EOC_handler h l (conversions (rs @ replicate n (h, l)) a)"
proof -
  have "rs @ replicate (Suc n) (h, l) = (rs @ replicate n (h, l)) @ [(h, l)]"
    by (simp add: replicate_append_same)
  then show ?thesis by (simp only: conversions_snoc)
qed

text \<open>While the filtered value differs from the sample, the accumulator moves towards it.\<close>

lemma handler_strict:
  assumes "unat (averaged a) \<le> 16383"
  shows "getAdcAveraged a < adcSample h l \<Longrightarrow> averaged a < averaged (ADC1_EOC_handler h l a)"
    and "adcSample h l < getAdcAveraged a \<Longrightarrow> averaged (ADC1_EOC_handler h l a) < averaged a"
proof -
  let ?A = "unat (averaged a)" and ?R = "unat (adcSample h l)"
  let ?A' = "unat (averaged (ADC1_EOC_handler h l a))"
  have q: "unat (getAdcAveraged a) = ?A div 16" using assms by (rule unat_getAdcAveraged)
  have A': "?A' = (if averaged a = 0 then 16 * ?R else ?A - ?A div 16 + ?R)"
    using assms by (rule handler_unat)
  have z: "averaged a = 0 \<longleftrightarrow> ?A = 0" by (simp add: unat_eq_0)
  show "averaged a < averaged (ADC1_EOC_handler h l a)" if "getAdcAveraged a < adcSample h l"
  proof -
    have lt: "?A div 16 < ?R" using that by (simp add: word_less_nat_alt q)
    have "?A < ?A'"
    proof (cases "?A = 0")
      case True
      then show ?thesis using A' z lt by simp
    next
      case False
      then have "?A' = ?A - ?A div 16 + ?R" using A' z by simp
      then show ?thesis using lt by linarith
    qed
    then show ?thesis by (simp only: word_less_nat_alt)
  qed
  show "averaged (ADC1_EOC_handler h l a) < averaged a" if "adcSample h l < getAdcAveraged a"
  proof -
    have gt: "?R < ?A div 16" using that by (simp add: word_less_nat_alt q)
    then have "?A \<noteq> 0" by auto
    then have "?A' = ?A - ?A div 16 + ?R" using A' z by simp
    then have "?A' < ?A" using gt by linarith
    then show ?thesis by (simp only: word_less_nat_alt)
  qed
qed

lemma conversions_gap:
  assumes "unat (averaged a) \<le> 16383"
  shows "filter_gap (adcSample h l) (conversions (replicate n (h, l)) a)
         \<le> filter_gap (adcSample h l) a - n"
  using assms
proof (induction n arbitrary: a)
  case 0
  show ?case by simp
next
  case (Suc n)
  have b: "unat (averaged (ADC1_EOC_handler h l a)) \<le> 16383"
    using Suc.prems by (rule handler_bounded)
  have "filter_gap (adcSample h l) (conversions (replicate n (h, l)) (ADC1_EOC_handler h l a))
        \<le> filter_gap (adcSample h l) (ADC1_EOC_handler h l a) - n"
    using b by (rule Suc.IH)
  moreover have "filter_gap (adcSample h l) (ADC1_EOC_handler h l a)
        \<le> filter_gap (adcSample h l) a - 1"
    using Suc.prems by (rule handler_gap)
  ultimately show ?case by simp
qed

section \<open>Claims about the temperature pipeline\<close>

text \<open>
  C2, as amended. The calibration table has exactly 165 entries and never increases;
  every entry is strictly greater than its successor except entry 162, whose successor
  163 holds the same value 47.
\<close>

theorem rawAdc_monotone:
  "length rawAdc = 165
   \<and> (\<forall>i. Suc i < 165 \<longrightarrow> rawAdc ! Suc i \<le> rawAdc ! i)
   \<and> (\<forall>i. Suc i < 165 \<longrightarrow> i \<noteq> 162 \<longrightarrow> rawAdc ! Suc i < rawAdc ! i)
   \<and> rawAdc ! 162 = 47 \<and> rawAdc ! 163 = 47"
  using rawAdc_length rawAdc_mono rawAdc_strict_adj rawAdc_162 rawAdc_163
  by (simp add: less_eq_Suc_le)

theorem rawAdc_monotone_witness:
  "Suc 0 < (165 :: nat) \<and> (0 :: nat) \<noteq> 162 \<and> rawAdc ! Suc 0 < rawAdc ! 0"
proof -
  have "\<forall>i. Suc i < 165 \<longrightarrow> i \<noteq> 162 \<longrightarrow> rawAdc ! Suc i < rawAdc ! i"
    using rawAdc_monotone by blast
  then show ?thesis by simp
qed

text \<open>C2 as stated fails: entry 163 is not smaller than entry 162.\<close>

theorem rawAdc_not_strict: "\<not> rawAdc ! 163 < rawAdc ! 162"
  by (simp add: rawAdc_162 rawAdc_163)

text \<open>
  C1, as amended. For every filtered value of at least 46 (the last table entry),
  \<open>getTemperature\<close> returns a value, so every access to \<open>rawAdc\<close> is inside the table and
  no division is by zero; a filtered value at or above the first table entry 974 gives the
  first entry's temperature, \<open>-520\<close> plus the correction, with no extrapolation.
\<close>

theorem getTemperature_total:
  assumes "46 \<le> getAdcAveraged a"
  shows "(\<exists>t. getTemperature correction a = Inr t)
    \<and> (974 \<le> getAdcAveraged a \<longrightarrow>
         getTemperature correction a = Inr (ADC_RAW_TABLE_BASE_TEMP + correction))"
proof -
  obtain l r where post: "search_post (getAdcAveraged a) l r"
    and br: "if rawAdc ! unat l \<le> getAdcAveraged a
      then getTemperature correction a =
             Inr (ADC_RAW_TABLE_BASE_TEMP + ucast l * 10 + correction)
      else unat r < 165 \<and> rawAdc ! unat r < getAdcAveraged a \<and>
           getTemperature correction a =
             Inr (ADC_RAW_TABLE_BASE_TEMP
                  + (ucast r * 10 - ((getAdcAveraged a - rawAdc ! unat r) * 10)
                       div (rawAdc ! unat l - rawAdc ! unat r))
                  + correction)"
    using getTemperature_branches [OF assms, of correction] by blast
  have total: "\<exists>t. getTemperature correction a = Inr t"
    using br by (cases "rawAdc ! unat l \<le> getAdcAveraged a") simp_all
  have "getTemperature correction a = Inr (ADC_RAW_TABLE_BASE_TEMP + correction)"
    if high: "974 \<le> getAdcAveraged a"
  proof -
    have l0: "unat l = 0" using post high by (rule search_post_high)
    then have "l = 0" by (simp add: unat_eq_0)
    then show ?thesis using br high by (simp add: rawAdc_first)
  qed
  with total show ?thesis by blast
qed

theorem getTemperature_total_witness:
  "46 \<le> getAdcAveraged \<lparr>result = 1000, averaged = 16000\<rparr>
   \<and> 974 \<le> getAdcAveraged \<lparr>result = 1000, averaged = 16000\<rparr>
   \<and> getTemperature 0 \<lparr>result = 1000, averaged = 16000\<rparr> = Inr (- 520)"
proof -
  have h: "46 \<le> getAdcAveraged \<lparr>result = 1000, averaged = 16000\<rparr>"
    by (simp add: getAdcAveraged_def ADC_AVERAGING_BITS_def drop_bit_eq_div)
  have h2: "974 \<le> getAdcAveraged \<lparr>result = 1000, averaged = 16000\<rparr>"
    by (simp add: getAdcAveraged_def ADC_AVERAGING_BITS_def drop_bit_eq_div)
  show ?thesis using h h2 getTemperature_total [OF h, of 0]
    by (simp add: ADC_RAW_TABLE_BASE_TEMP_def)
qed

text \<open>
  C1 as stated fails twice. Right after \<open>initADC\<close> the filtered value is 0, below the
  last table entry: the search ends with \<open>rightBound = 165\<close> and the interpolation reads
  \<open>rawAdc[165]\<close>, one past the table. And the filtered value 1023, above the first table
  entry, gives the same temperature as the first entry 974 itself: it is clamped, not
  extrapolated.
\<close>

theorem getTemperature_out_of_table:
  "getTemperature 0 initADC = Inl (IndexOutOfBounds 165)
   \<and> getTemperature 0 \<lparr>result = 1023, averaged = 16368\<rparr> = Inr (- 520)
   \<and> getTemperature 0 \<lparr>result = 974, averaged = 15584\<rparr> = Inr (- 520)"
  by code_simp

text \<open>
  C3, as amended. For every table index \<open>i\<close> in [0, 163] other than 162, a filtered
  value equal to \<open>rawAdc[i]\<close> makes \<open>getTemperature\<close> return \<open>-520 + 10 * i\<close> plus the
  correction, with no interpolation: the sum is the 16-bit sum of the C code, the
  returned value less the correction reads as the integer \<open>-520 + 10 * i\<close>, and where
  the integer sum fits a 16-bit \<open>int\<close> the returned value reads as that sum.
\<close>

theorem getTemperature_exact:
  assumes "i \<le> 163" "i \<noteq> 162" "getAdcAveraged a = rawAdc ! i"
  shows "\<exists>t. getTemperature correction a = Inr t
     \<and> t = ADC_RAW_TABLE_BASE_TEMP + 10 * of_nat i + correction
     \<and> sint (t - correction) = - 520 + 10 * int i
     \<and> (- 32768 \<le> - 520 + 10 * int i + sint correction
          \<and> - 520 + 10 * int i + sint correction \<le> 32767
        \<longrightarrow> sint t = - 520 + 10 * int i + sint correction)"
proof -
  let ?b = "ADC_RAW_TABLE_BASE_TEMP + 10 * of_nat i :: 16 word"
  have g: "getTemperature correction a = Inr (?b + correction)"
    using assms by (rule getTemperature_at_entry)
  have b: "sint ?b = - 520 + 10 * int i" using assms(1) by (intro sint_entry) simp
  have d: "sint (?b + correction - correction) = - 520 + 10 * int i"
    using b by simp
  have s: "sint (?b + correction) = - 520 + 10 * int i + sint correction"
    if "- 32768 \<le> - 520 + 10 * int i + sint correction"
       "- 520 + 10 * int i + sint correction \<le> 32767"
    using that sint_plus_in_range [of ?b correction] by (simp only: b)
  show ?thesis using g d s by blast
qed

theorem getTemperature_exact_witness:
  "(46 :: nat) \<le> 163 \<and> (46 :: nat) \<noteq> 162
   \<and> getAdcAveraged \<lparr>result = 644, averaged = 10304\<rparr> = rawAdc ! 46
   \<and> getTemperature 7 \<lparr>result = 644, averaged = 10304\<rparr> = Inr (- 53)
   \<and> sint (- 53 :: 16 word) = - 520 + 10 * 46 + sint (7 :: 16 word)"
proof -
  have h: "getAdcAveraged \<lparr>result = 644, averaged = 10304\<rparr> = rawAdc ! 46"
    by (simp add: getAdcAveraged_def ADC_AVERAGING_BITS_def drop_bit_eq_div rawAdc_def)
  show ?thesis
    using h getTemperature_exact [of 46 "\<lparr>result = 644, averaged = 10304\<rparr>" 7]
    by (simp add: ADC_RAW_TABLE_BASE_TEMP_def)
qed

text \<open>
  C3 as stated fails at \<open>i = 162\<close>: entries 162 and 163 are both 47, the search ends
  at the later one and the result is that of index 163.
\<close>

theorem getTemperature_entry_162:
  "getAdcAveraged \<lparr>result = 47, averaged = 752\<rparr> = rawAdc ! 162
   \<and> getTemperature 0 \<lparr>result = 47, averaged = 752\<rparr> = Inr (- 520 + 10 * 163)
   \<and> getTemperature 0 \<lparr>result = 47, averaged = 752\<rparr> \<noteq> Inr (- 520 + 10 * 162 + 0)"
  by code_simp

text \<open>
  C4, as amended. For every table index \<open>i\<close> in [0, 163] and every filtered value \<open>v\<close>
  strictly between \<open>rawAdc[i+1]\<close> and \<open>rawAdc[i]\<close>, \<open>getTemperature\<close> less the correction
  is \<open>-520 + 10 * (i + 1)\<close> less the quotient, rounded down, of \<open>10 * (v - rawAdc[i+1])\<close>
  by \<open>rawAdc[i] - rawAdc[i+1]\<close>. It is strictly above \<open>-520 + 10 * i\<close>, and it is strictly
  below \<open>-520 + 10 * (i + 1)\<close> except where \<open>10 * (v - rawAdc[i+1])\<close> is less than
  \<open>rawAdc[i] - rawAdc[i+1]\<close>: there the quotient is 0 and the upper end itself is returned.
\<close>

theorem getTemperature_interpolated:
  assumes "i \<le> 163" "rawAdc ! Suc i < getAdcAveraged a" "getAdcAveraged a < rawAdc ! i"
  shows "\<exists>t. getTemperature correction a = Inr t
     \<and> sint (t - correction)
         = - 520 + 10 * (int i + 1)
           - int ((10 * (unat (getAdcAveraged a) - unat (rawAdc ! Suc i)))
                  div (unat (rawAdc ! i) - unat (rawAdc ! Suc i)))
     \<and> - 520 + 10 * int i < sint (t - correction)
     \<and> sint (t - correction) \<le> - 520 + 10 * (int i + 1)
     \<and> (sint (t - correction) < - 520 + 10 * (int i + 1)
          \<longleftrightarrow> unat (rawAdc ! i) - unat (rawAdc ! Suc i)
               \<le> 10 * (unat (getAdcAveraged a) - unat (rawAdc ! Suc i)))"
proof -
  let ?val = "getAdcAveraged a"
  have "46 \<le> rawAdc ! Suc i" using assms(1) by (intro rawAdc_ge) simp
  then have ge: "46 \<le> ?val" using assms(2) by simp
  obtain l r where post: "search_post ?val l r"
    and br: "if rawAdc ! unat l \<le> ?val
      then getTemperature correction a =
             Inr (ADC_RAW_TABLE_BASE_TEMP + ucast l * 10 + correction)
      else unat r < 165 \<and> rawAdc ! unat r < ?val \<and>
           getTemperature correction a =
             Inr (ADC_RAW_TABLE_BASE_TEMP
                  + (ucast r * 10 - ((?val - rawAdc ! unat r) * 10)
                       div (rawAdc ! unat l - rawAdc ! unat r))
                  + correction)"
    using getTemperature_branches [OF ge, of correction] by blast
  have l: "unat l = i" using post assms by (rule search_post_between)
  have r: "unat r = Suc i" using search_postD(1) [OF post] l by simp
  let ?W = "ucast r * 10 - ((?val - rawAdc ! unat r) * 10)
                       div (rawAdc ! unat l - rawAdc ! unat r) :: 16 word"
  have below: "\<not> rawAdc ! unat l \<le> ?val" using assms(3) l by simp
  then have g: "getTemperature correction a = Inr (ADC_RAW_TABLE_BASE_TEMP + ?W + correction)"
    and y: "rawAdc ! unat r < ?val"
    using br by simp_all
  have x: "rawAdc ! unat l \<le> 974" using l assms(1) by (intro rawAdc_le) simp
  have lt: "?val < rawAdc ! unat l" using below by simp
  have r1: "1 \<le> unat r" "unat r \<le> 165" using r assms(1) by simp_all
  define d where "d = unat ?val - unat (rawAdc ! Suc i)"
  define D where "D = unat (rawAdc ! i) - unat (rawAdc ! Suc i)"
  define q where "q = (10 * d) div D"
  have W: "unat ?W = unat r * 10 - q" and q: "q < 10"
    using unat_interp_exact [OF y lt x r1] unfolding q_def d_def D_def l r by simp_all
  have Dpos: "0 < D"
    using assms(2,3) unfolding D_def by (simp add: word_less_nat_alt)
  have qz: "0 < q \<longleftrightarrow> D \<le> 10 * d"
    unfolding q_def using Dpos by (simp add: div_greater_zero_iff)
  define k where "k = unat r * 10 - q"
  have kq: "int k = 10 * (int i + 1) - int q" using q r by (simp add: k_def)
  have Wk: "unat ?W = k" using W by (simp only: k_def)
  have "k \<le> 2000" using r assms(1) by (simp add: k_def)
  then have W2: "unat ?W \<le> 2000" by (simp only: Wk)
  have "sint (ADC_RAW_TABLE_BASE_TEMP + ?W) = int (unat ?W) - 520"
    using W2 by (rule sint_base)
  then have s: "sint (ADC_RAW_TABLE_BASE_TEMP + ?W + correction - correction)
                = - 520 + 10 * (int i + 1) - int q"
    by (simp only: Wk add_diff_cancel_right' kq)
  show ?thesis
  proof (intro exI conjI)
    show "getTemperature correction a = Inr (ADC_RAW_TABLE_BASE_TEMP + ?W + correction)"
      by (rule g)
    show "sint (ADC_RAW_TABLE_BASE_TEMP + ?W + correction - correction)
         = - 520 + 10 * (int i + 1)
           - int ((10 * (unat ?val - unat (rawAdc ! Suc i)))
                  div (unat (rawAdc ! i) - unat (rawAdc ! Suc i)))"
      unfolding s q_def d_def D_def ..
    show "- 520 + 10 * int i < sint (ADC_RAW_TABLE_BASE_TEMP + ?W + correction - correction)"
      unfolding s using q by simp
    show "sint (ADC_RAW_TABLE_BASE_TEMP + ?W + correction - correction) \<le> - 520 + 10 * (int i + 1)"
      unfolding s by simp
    show "sint (ADC_RAW_TABLE_BASE_TEMP + ?W + correction - correction) < - 520 + 10 * (int i + 1)
          \<longleftrightarrow> unat (rawAdc ! i) - unat (rawAdc ! Suc i)
               \<le> 10 * (unat ?val - unat (rawAdc ! Suc i))"
      unfolding s using qz unfolding d_def D_def by simp
  qed
qed

theorem getTemperature_interpolated_witness:
  "(0 :: nat) \<le> 163
   \<and> rawAdc ! Suc 0 < getAdcAveraged \<lparr>result = 973, averaged = 15568\<rparr>
   \<and> getAdcAveraged \<lparr>result = 973, averaged = 15568\<rparr> < rawAdc ! 0
   \<and> getTemperature 0 \<lparr>result = 973, averaged = 15568\<rparr> = Inr (- 516)
   \<and> sint (- 516 - 0 :: 16 word) = - 520 + 10 * (0 + 1) - int ((10 * (973 - 971)) div (974 - 971))
   \<and> - 520 + 10 * 0 < sint (- 516 - 0 :: 16 word)
   \<and> sint (- 516 - 0 :: 16 word) < - 520 + 10 * (0 + 1)"
proof -
  have v: "getAdcAveraged \<lparr>result = 973, averaged = 15568\<rparr> = 973"
    by (simp add: getAdcAveraged_def ADC_AVERAGING_BITS_def drop_bit_eq_div)
  have h1: "rawAdc ! Suc 0 < getAdcAveraged \<lparr>result = 973, averaged = 15568\<rparr>"
    unfolding v by (simp add: rawAdc_def)
  have h2: "getAdcAveraged \<lparr>result = 973, averaged = 15568\<rparr> < rawAdc ! 0"
    unfolding v by (simp add: rawAdc_def)
  have g: "getTemperature 0 \<lparr>result = 973, averaged = 15568\<rparr> = Inr (- 516)"
    by code_simp
  show ?thesis
    using h1 h2 g getTemperature_interpolated [of 0 "\<lparr>result = 973, averaged = 15568\<rparr>" 0]
    by simp
qed

text \<open>
  C4 as stated fails where the table step is 11: between entries 46 (644) and 47 (633)
  the filtered value 634 gives \<open>470 - 10 div 11 = 470\<close>, the upper end itself.
\<close>

theorem getTemperature_reaches_upper_end:
  "rawAdc ! 47 < getAdcAveraged \<lparr>result = 634, averaged = 10144\<rparr>
   \<and> getAdcAveraged \<lparr>result = 634, averaged = 10144\<rparr> < rawAdc ! 46
   \<and> getTemperature 0 \<lparr>result = 634, averaged = 10144\<rparr> = Inr (- 50)
   \<and> sint (- 50 - 0 :: 16 word) = - 520 + 10 * (46 + 1)"
  by code_simp

text \<open>
  C5. After \<open>initADC\<close>, the first conversion with raw sample \<open>r\<close> makes
  \<open>getAdcAveraged\<close> return exactly \<open>r\<close>, and any number of further conversions with the
  same sample leave it at \<open>r\<close>. After any earlier conversions \<open>rs\<close>, a run of conversions
  with one sample \<open>r\<close> converges monotonically to \<open>r\<close>: each conversion leaves the filtered
  value between its old value and \<open>r\<close>, moves the accumulator strictly towards \<open>r\<close> while
  the filtered value differs from \<open>r\<close>, and after as many conversions as the accumulator was
  away from the values that read as \<open>r\<close>, at most 16384, the filtered value is \<open>r\<close>.
\<close>

theorem seed_then_hold:
  "getAdcAveraged (ADC1_EOC_handler h l initADC) = adcSample h l
   \<and> getAdcResult (ADC1_EOC_handler h l initADC) = adcSample h l
   \<and> getAdcAveraged (conversions (replicate n (h, l)) (ADC1_EOC_handler h l initADC))
       = adcSample h l
   \<and> min (getAdcAveraged (conversions (rs @ replicate n (h, l)) initADC)) (adcSample h l)
       \<le> getAdcAveraged (conversions (rs @ replicate (Suc n) (h, l)) initADC)
   \<and> getAdcAveraged (conversions (rs @ replicate (Suc n) (h, l)) initADC)
       \<le> max (getAdcAveraged (conversions (rs @ replicate n (h, l)) initADC)) (adcSample h l)
   \<and> (getAdcAveraged (conversions (rs @ replicate n (h, l)) initADC) < adcSample h l
        \<longrightarrow> averaged (conversions (rs @ replicate n (h, l)) initADC)
            < averaged (conversions (rs @ replicate (Suc n) (h, l)) initADC))
   \<and> (adcSample h l < getAdcAveraged (conversions (rs @ replicate n (h, l)) initADC)
        \<longrightarrow> averaged (conversions (rs @ replicate (Suc n) (h, l)) initADC)
            < averaged (conversions (rs @ replicate n (h, l)) initADC))
   \<and> filter_gap (adcSample h l) (conversions rs initADC) \<le> 16384
   \<and> (filter_gap (adcSample h l) (conversions rs initADC) \<le> n
        \<longrightarrow> getAdcAveraged (conversions (rs @ replicate n (h, l)) initADC) = adcSample h l)"
proof -
  let ?a = "ADC1_EOC_handler h l initADC"
  let ?r = "adcSample h l"
  let ?b = "conversions (rs @ replicate n (h, l)) initADC"
  let ?c = "conversions rs initADC"
  have z: "averaged initADC = 0" by (simp add: initADC_def)
  have s: "averaged ?a = ucast (push_bit 4 ?r)"
    and g: "getAdcAveraged ?a = ?r"
    using z by (rule handler_seed)+
  have "averaged (conversions (replicate n (h, l)) ?a) = averaged ?a"
    using s by (rule conversions_hold)
  then have hold: "getAdcAveraged (conversions (replicate n (h, l)) ?a) = ?r"
    using g by (simp add: getAdcAveraged_def)
  have res: "getAdcResult ?a = ?r" by (simp add: getAdcResult_def handler_result)
  have bb: "unat (averaged ?b) \<le> 16383"
    using initADC_bounded by (rule conversions_bounded)
  have bc: "unat (averaged ?c) \<le> 16383"
    using initADC_bounded by (rule conversions_bounded)
  have next_b: "conversions (rs @ replicate (Suc n) (h, l)) initADC = ADC1_EOC_handler h l ?b"
    by (rule conversions_replicate_Suc)
  have tw: "min (getAdcAveraged ?b) ?r \<le> getAdcAveraged (ADC1_EOC_handler h l ?b)"
    "getAdcAveraged (ADC1_EOC_handler h l ?b) \<le> max (getAdcAveraged ?b) ?r"
    using handler_towards [OF bb, of h l] by simp_all
  have up: "getAdcAveraged ?b < ?r \<longrightarrow> averaged ?b < averaged (ADC1_EOC_handler h l ?b)"
    using handler_strict(1) [OF bb, of h l] by blast
  have down: "?r < getAdcAveraged ?b \<longrightarrow> averaged (ADC1_EOC_handler h l ?b) < averaged ?b"
    using handler_strict(2) [OF bb, of h l] by blast
  have gl: "filter_gap ?r ?c \<le> 16384"
    using bc adcSample_le by (rule filter_gap_le)
  have conv: "getAdcAveraged ?b = ?r" if "filter_gap ?r ?c \<le> n"
  proof -
    have "filter_gap ?r (conversions (replicate n (h, l)) ?c) \<le> filter_gap ?r ?c - n"
      using bc by (rule conversions_gap)
    then have "filter_gap ?r ?b = 0" using that by (simp add: conversions_append)
    then show ?thesis using filter_gap_zero [OF bb, of ?r] by simp
  qed
  show ?thesis
    unfolding next_b using g res hold tw up down gl conv by blast
qed

theorem seed_then_hold_witness:
  "adcSample 10 3 < getAdcAveraged (conversions ([(200, 1)] @ replicate 0 (10, 3)) initADC)
   \<and> averaged (conversions ([(200, 1)] @ replicate (Suc 0) (10, 3)) initADC)
       < averaged (conversions ([(200, 1)] @ replicate 0 (10, 3)) initADC)
   \<and> getAdcAveraged (conversions ([(10, 3)] @ replicate 0 (200, 1)) initADC) < adcSample 200 1
   \<and> averaged (conversions ([(10, 3)] @ replicate 0 (200, 1)) initADC)
       < averaged (conversions ([(10, 3)] @ replicate (Suc 0) (200, 1)) initADC)
   \<and> filter_gap (adcSample 200 0) (conversions [(200, 1)] initADC) \<le> 1
   \<and> getAdcAveraged (conversions ([(200, 1)] @ replicate 1 (200, 0)) initADC) = adcSample 200 0"
proof -
  have e1: "ADC1_EOC_handler 200 1 initADC = \<lparr>result = 801, averaged = 12816\<rparr>"
    by (simp add: ADC1_EOC_handler_def adcSample_def initADC_def ADC_AVERAGING_BITS_def)
  have e2: "ADC1_EOC_handler 10 3 initADC = \<lparr>result = 43, averaged = 688\<rparr>"
    by (simp add: ADC1_EOC_handler_def adcSample_def initADC_def ADC_AVERAGING_BITS_def)
  have s1: "adcSample 10 3 = 43" "adcSample 200 1 = 801" "adcSample 200 0 = 800"
    by (simp_all add: adcSample_def)
  have q1: "getAdcAveraged \<lparr>result = 801, averaged = 12816\<rparr> = 801"
    "getAdcAveraged \<lparr>result = 43, averaged = 688\<rparr> = 43"
    by (simp_all add: getAdcAveraged_def ADC_AVERAGING_BITS_def drop_bit_eq_div)
  have n1: "(43 :: 16 word) < 801" by (simp add: word_less_nat_alt)
  have g1: "filter_gap 800 \<lparr>result = 801, averaged = 12816\<rparr> \<le> 1"
    by (simp add: filter_gap_def)
  have h1: "adcSample 10 3 < getAdcAveraged (conversions ([(200, 1)] @ replicate 0 (10, 3)) initADC)"
    by (simp add: e1 s1 q1 n1)
  have h2: "getAdcAveraged (conversions ([(10, 3)] @ replicate 0 (200, 1)) initADC) < adcSample 200 1"
    by (simp add: e2 s1 q1 n1)
  have h3: "filter_gap (adcSample 200 0) (conversions [(200, 1)] initADC) \<le> 1"
    using g1 by (simp add: e1 s1)
  show ?thesis
    using h1 h2 h3 seed_then_hold [of 200 0 1 "[(200, 1)]"]
      seed_then_hold [of 10 3 0 "[(200, 1)]"] seed_then_hold [of 200 1 0 "[(10, 3)]"]
    by blast
qed

text \<open>
  C6. For every non-empty sequence of conversions after \<open>initADC\<close>, the value returned
  by \<open>getAdcAveraged\<close> lies between the smallest and the largest raw sample of the
  sequence.
\<close>

theorem ema_contraction:
  assumes "rs \<noteq> []"
  shows "Min (set (map (\<lambda>(h, l). adcSample h l) rs)) \<le> getAdcAveraged (conversions rs initADC)
       \<and> getAdcAveraged (conversions rs initADC) \<le> Max (set (map (\<lambda>(h, l). adcSample h l) rs))"
  using assms
proof (induction rs rule: rev_nonempty_induct)
  case (single x)
  obtain h l where x: "x = (h, l)" by (cases x)
  have "getAdcAveraged (ADC1_EOC_handler h l initADC) = adcSample h l"
    by (rule handler_seed) (simp add: initADC_def)
  then show ?case by (simp add: x)
next
  case (snoc x rs)
  obtain h l where x: "x = (h, l)" by (cases x)
  let ?S = "set (map (\<lambda>(h, l). adcSample h l) rs)"
  let ?a = "conversions rs initADC"
  have fin: "finite ?S" and ne: "?S \<noteq> {}" using snoc.hyps by simp_all
  have b: "unat (averaged ?a) \<le> 16383"
    using initADC_bounded by (rule conversions_bounded)
  have t: "min (getAdcAveraged ?a) (adcSample h l) \<le> getAdcAveraged (ADC1_EOC_handler h l ?a)"
    "getAdcAveraged (ADC1_EOC_handler h l ?a) \<le> max (getAdcAveraged ?a) (adcSample h l)"
    using handler_towards [OF b, of h l] by simp_all
  have mn: "Min (insert (adcSample h l) ?S) = min (adcSample h l) (Min ?S)"
    using fin ne by (rule Min_insert)
  have mx: "Max (insert (adcSample h l) ?S) = max (adcSample h l) (Max ?S)"
    using fin ne by (rule Max_insert)
  have ih: "Min ?S \<le> getAdcAveraged ?a" "getAdcAveraged ?a \<le> Max ?S"
    using snoc.IH by blast+
  have lo: "min (adcSample h l) (Min ?S) \<le> min (getAdcAveraged ?a) (adcSample h l)"
    using ih(1) by (rule min_widen)
  have hi: "max (getAdcAveraged ?a) (adcSample h l) \<le> max (adcSample h l) (Max ?S)"
    using ih(2) by (rule max_widen)
  have c: "conversions (rs @ [x]) initADC = ADC1_EOC_handler h l ?a"
    by (simp add: x conversions_snoc)
  have e: "set (map (\<lambda>(h, l). adcSample h l) (rs @ [x])) = insert (adcSample h l) ?S"
    by (simp add: x)
  show ?case
    unfolding c e mn mx
    using order_trans [OF lo t(1)] order_trans [OF t(2) hi] by (rule conjI)
qed

theorem ema_contraction_witness:
  "[(200, 1), (10, 3 :: 8 word), (100, 0 :: 8 word)] \<noteq> ([] :: (8 word \<times> 8 word) list)
   \<and> (43 :: 16 word) \<le> getAdcAveraged (conversions [(200, 1), (10, 3), (100, 0)] initADC)
   \<and> getAdcAveraged (conversions [(200, 1), (10, 3), (100, 0)] initADC) \<le> 801"
proof -
  have s: "map (\<lambda>(h, l). adcSample h l) [(200, 1), (10, 3), (100, 0)] = [801, 43, 400]"
    by (simp add: adcSample_def)
  show ?thesis
    using ema_contraction [of "[(200, 1), (10, 3), (100, 0)]"]
    unfolding s by simp
qed

section \<open>Properties of the menu state machine\<close>

lemma call_simps [simp]:
  "menuState (call f w) = menuState w" "menuDisplay (call f w) = menuDisplay w"
  "timer (call f w) = timer w" "displayOff (call f w) = displayOff w"
  "calls (call f w) = calls w @ [f]"
  by (simp_all add: call_def)

lemma setDisplayOff_simps [simp]:
  "menuState (setDisplayOff b w) = menuState w" "menuDisplay (setDisplayOff b w) = menuDisplay w"
  "timer (setDisplayOff b w) = timer w" "displayOff (setDisplayOff b w) = b"
  "calls (setDisplayOff b w) = calls w"
  by (simp_all add: setDisplayOff_def)

lemma feedMenu_ROOT_pair:
  assumes "state_display_pair c w" "menuState w = MENU_ROOT c"
  shows "state_display_pair c (feedMenu_ROOT c e event w)"
  using assms by (auto simp: state_display_pair_def feedMenu_ROOT_def Let_def)

text \<open>Outside ROOT and SET_TIMER a step leaves both sections alone or sets them together.\<close>

lemma feedMenu_SELECT_PARAM_sections:
  "(menuState (feedMenu_SELECT_PARAM c e event w) = menuState w
      \<and> menuDisplay (feedMenu_SELECT_PARAM c e event w) = menuDisplay w)
   \<or> menuState (feedMenu_SELECT_PARAM c e event w)
       = menuDisplay (feedMenu_SELECT_PARAM c e event w)"
  by (simp add: feedMenu_SELECT_PARAM_def Let_def)

lemma feedMenu_CHANGE_PARAM_sections:
  "(menuState (feedMenu_CHANGE_PARAM c e event w) = menuState w
      \<and> menuDisplay (feedMenu_CHANGE_PARAM c e event w) = menuDisplay w)
   \<or> menuState (feedMenu_CHANGE_PARAM c e event w)
       = menuDisplay (feedMenu_CHANGE_PARAM c e event w)"
  by (simp add: feedMenu_CHANGE_PARAM_def Let_def)

lemma feedMenu_SELECT_PARAM_pair:
  assumes "state_display_pair c w"
  shows "state_display_pair c (feedMenu_SELECT_PARAM c e event w)"
  using assms feedMenu_SELECT_PARAM_sections [of c e event w]
  unfolding state_display_pair_def by metis

lemma feedMenu_CHANGE_PARAM_pair:
  assumes "state_display_pair c w"
  shows "state_display_pair c (feedMenu_CHANGE_PARAM c e event w)"
  using assms feedMenu_CHANGE_PARAM_sections [of c e event w]
  unfolding state_display_pair_def by metis

lemma feedMenu_SET_TIMER_pair:
  assumes "state_display_pair c w" "menuState w = MENU_SET_TIMER c"
  shows "state_display_pair c (feedMenu_SET_TIMER c e event w)"
  using assms by (auto simp: state_display_pair_def feedMenu_SET_TIMER_def Let_def)

lemma feedMenu_pair:
  assumes "state_display_pair c w"
  shows "state_display_pair c (feedMenu c e event w)"
  using assms
  by (simp add: feedMenu_def feedMenu_ROOT_pair feedMenu_SELECT_PARAM_pair
      feedMenu_CHANGE_PARAM_pair feedMenu_SET_TIMER_pair)

lemma timer_update_pair:
  "state_display_pair c (w\<lparr>timer := t\<rparr>) = state_display_pair c w"
  by (simp add: state_display_pair_def)

lemma step_pair:
  assumes "state_display_pair c w"
  shows "state_display_pair c (step c i w)"
  using assms by (cases i) (simp_all add: refreshMenu_def feedMenu_pair timer_update_pair)

lemma run_pair:
  assumes "state_display_pair c w"
  shows "state_display_pair c (run c is w)"
  using assms by (induction "is" arbitrary: w) (simp_all add: step_pair)

lemma initMenu_pair: "state_display_pair c (initMenu c w)"
  by (simp add: state_display_pair_def initMenu_def)

text \<open>Every branch leaves a section alone or stores one of the four known values.\<close>

lemma feedMenu_ROOT_known:
  "(menuState (feedMenu_ROOT c e event w) = menuState w
      \<or> menuState (feedMenu_ROOT c e event w) \<in> known_sections c)
   \<and> (menuDisplay (feedMenu_ROOT c e event w) = menuDisplay w
      \<or> menuDisplay (feedMenu_ROOT c e event w) \<in> known_sections c)"
  by (simp add: known_sections_def feedMenu_ROOT_def Let_def)

lemma feedMenu_SELECT_PARAM_known:
  "(menuState (feedMenu_SELECT_PARAM c e event w) = menuState w
      \<or> menuState (feedMenu_SELECT_PARAM c e event w) \<in> known_sections c)
   \<and> (menuDisplay (feedMenu_SELECT_PARAM c e event w) = menuDisplay w
      \<or> menuDisplay (feedMenu_SELECT_PARAM c e event w) \<in> known_sections c)"
  by (simp add: known_sections_def feedMenu_SELECT_PARAM_def Let_def)

lemma feedMenu_CHANGE_PARAM_known:
  "(menuState (feedMenu_CHANGE_PARAM c e event w) = menuState w
      \<or> menuState (feedMenu_CHANGE_PARAM c e event w) \<in> known_sections c)
   \<and> (menuDisplay (feedMenu_CHANGE_PARAM c e event w) = menuDisplay w
      \<or> menuDisplay (feedMenu_CHANGE_PARAM c e event w) \<in> known_sections c)"
  by (simp add: known_sections_def feedMenu_CHANGE_PARAM_def Let_def)

lemma feedMenu_SET_TIMER_known:
  "(menuState (feedMenu_SET_TIMER c e event w) = menuState w
      \<or> menuState (feedMenu_SET_TIMER c e event w) \<in> known_sections c)
   \<and> (menuDisplay (feedMenu_SET_TIMER c e event w) = menuDisplay w
      \<or> menuDisplay (feedMenu_SET_TIMER c e event w) \<in> known_sections c)"
  by (simp add: known_sections_def feedMenu_SET_TIMER_def Let_def)

lemma sections_known_step:
  assumes "sections_known c w"
    and "(menuState w' = menuState w \<or> menuState w' \<in> known_sections c)
       \<and> (menuDisplay w' = menuDisplay w \<or> menuDisplay w' \<in> known_sections c)"
  shows "sections_known c w'"
  using assms unfolding sections_known_def by auto

lemma feedMenu_known:
  assumes "sections_known c w"
  shows "sections_known c (feedMenu c e event w)"
  by (simp add: feedMenu_def assms
      sections_known_step [OF assms feedMenu_ROOT_known]
      sections_known_step [OF assms feedMenu_SELECT_PARAM_known]
      sections_known_step [OF assms feedMenu_CHANGE_PARAM_known]
      sections_known_step [OF assms feedMenu_SET_TIMER_known])

lemma step_known:
  assumes "sections_known c w"
  shows "sections_known c (step c i w)"
proof (cases i)
  case (Feed event e)
  then show ?thesis using assms by (simp add: feedMenu_known)
next
  case (Tick e)
  have "sections_known c (w\<lparr>timer := timer w + 1\<rparr>)"
    using assms by (simp add: sections_known_def)
  then show ?thesis using Tick by (simp add: refreshMenu_def feedMenu_known)
qed

lemma run_known:
  assumes "sections_known c w"
  shows "sections_known c (run c is w)"
  using assms by (induction "is" arbitrary: w) (simp_all add: step_known)

lemma initMenu_known: "sections_known c (initMenu c w)"
  by (simp add: sections_known_def known_sections_def initMenu_def)

lemma run_append: "run c (xs @ ys) w = run c ys (run c xs w)"
  by (induction xs arbitrary: w) simp_all

lemma menu_h_ok_events:
  assumes "menu_h_ok c"
  shows "MENU_EVENT_CHECK_TIMER c \<noteq> MENU_EVENT_PUSH_BUTTON1 c"
    "MENU_EVENT_CHECK_TIMER c \<noteq> MENU_EVENT_PUSH_BUTTON2 c"
    "MENU_EVENT_CHECK_TIMER c \<noteq> MENU_EVENT_PUSH_BUTTON3 c"
    "MENU_EVENT_CHECK_TIMER c \<noteq> MENU_EVENT_RELEASE_BUTTON1 c"
    "MENU_EVENT_CHECK_TIMER c \<noteq> MENU_EVENT_RELEASE_BUTTON2 c"
    "MENU_EVENT_CHECK_TIMER c \<noteq> MENU_EVENT_RELEASE_BUTTON3 c"
    "MENU_EVENT_PUSH_BUTTON2 c \<noteq> MENU_EVENT_PUSH_BUTTON1 c"
    "MENU_EVENT_PUSH_BUTTON2 c \<noteq> MENU_EVENT_RELEASE_BUTTON1 c"
  using assms by (auto simp: menu_h_ok_def)

lemma menu_h_ok_sections:
  assumes "menu_h_ok c"
  shows "MENU_SET_TIMER c \<noteq> MENU_ROOT c"
    "MENU_SET_TIMER c \<noteq> MENU_SELECT_PARAM c"
    "MENU_SET_TIMER c \<noteq> MENU_CHANGE_PARAM c"
    "MENU_SELECT_PARAM c \<noteq> MENU_ROOT c"
  using assms by (auto simp: menu_h_ok_def)

lemma menu_h_example_ok: "menu_h_ok menu_h_example"
  by (simp add: menu_h_ok_def menu_h_example_def)

lemma timer_gt:
  assumes "k < 65536"
  shows "(of_nat k :: 16 word) > of_nat n \<longleftrightarrow> k > n mod 65536"
  using assms by (simp add: word_less_nat_alt unat_of_nat)

text \<open>The check event in ROOT once the timer has passed three seconds.\<close>

lemma check_ROOT_3s:
  assumes "menu_h_ok c" "menuState w = MENU_ROOT c" "timer w > MENU_3_SEC_PASSED"
  shows "feedMenu c e (MENU_EVENT_CHECK_TIMER c) w =
    (if getButton1 e then
       w\<lparr>timer := 0, calls := calls w @ [setParamId 0],
         menuState := MENU_SELECT_PARAM c, menuDisplay := MENU_SELECT_PARAM c\<rparr>
     else if getButton2 e then
       (if isRelayEnabled e \<and> \<not> isFTimer e
        then w\<lparr>timer := 0, calls := calls w @ [enableRelay False]\<rparr>
        else w\<lparr>timer := 0, calls := calls w @ [enableRelay True]\<rparr>)
     else if getButton3 e then
       (if isFTimer e
        then w\<lparr>timer := 0, calls := calls w @ [stopFTimer, enableRelay False]\<rparr>
        else w\<lparr>timer := 0, calls := calls w @ [startFTimer, enableRelay True]\<rparr>)
     else w\<lparr>timer := 0\<rparr>)"
  using assms menu_h_ok_events [OF assms(1)]
  by (simp add: feedMenu_def feedMenu_ROOT_def Let_def call_def)

text \<open>A tick in ROOT up to the three-second mark only counts.\<close>

lemma tick_ROOT_idle:
  assumes "menu_h_ok c" "menuState w = MENU_ROOT c" "timer w = of_nat k" "k < 96"
  shows "refreshMenu c e w = w\<lparr>timer := of_nat (Suc k)\<rparr>"
proof -
  have "\<not> (of_nat k + 1 :: 16 word) > 96"
    using assms(4) timer_gt [of "Suc k" 96] by (simp add: add.commute)
  then show ?thesis
    using assms(2,3) menu_h_ok_events [OF assms(1)]
    by (simp add: refreshMenu_def feedMenu_def feedMenu_ROOT_def
        MENU_3_SEC_PASSED_def MENU_1_SEC_PASSED_def add.commute)
qed

lemma ticks_ROOT_idle:
  assumes "menu_h_ok c" "menuState w = MENU_ROOT c" "timer w = of_nat k" "k + length es \<le> 96"
  shows "run c (map Tick es) w = w\<lparr>timer := of_nat (k + length es)\<rparr>"
  using assms(2-)
proof (induction es arbitrary: w k)
  case Nil
  then show ?case by simp
next
  case (Cons e es)
  have k: "k < 96" using Cons.prems(3) by simp
  have t: "refreshMenu c e w = w\<lparr>timer := of_nat (Suc k)\<rparr>"
    using assms(1) Cons.prems(1,2) k by (rule tick_ROOT_idle)
  have "run c (map Tick es) (w\<lparr>timer := of_nat (Suc k)\<rparr>)
        = w\<lparr>timer := of_nat (Suc k), timer := of_nat (Suc k + length es)\<rparr>"
    using Cons.prems by (intro Cons.IH) simp_all
  then show ?case by (simp add: t)
qed

text \<open>The tick that takes the timer past three seconds, with button 1 held.\<close>

lemma tick_ROOT_97:
  assumes "menu_h_ok c" "menuState w = MENU_ROOT c" "timer w = 96" "getButton1 e"
  shows "refreshMenu c e w =
     w\<lparr>timer := 0, calls := calls w @ [setParamId 0],
       menuState := MENU_SELECT_PARAM c, menuDisplay := MENU_SELECT_PARAM c\<rparr>"
proof -
  let ?w = "w\<lparr>timer := timer w + 1\<rparr>"
  have "timer ?w > MENU_3_SEC_PASSED"
    using assms(3) by (simp add: MENU_3_SEC_PASSED_def MENU_1_SEC_PASSED_def)
  moreover have "menuState ?w = MENU_ROOT c" using assms(2) by simp
  ultimately show ?thesis
    using check_ROOT_3s [OF assms(1), of ?w e] assms(4) by (simp add: refreshMenu_def)
qed

text \<open>Button 1 pushed in ROOT and held: 96 ticks pass in ROOT, the 97th enters SELECT_PARAM.\<close>

lemma hold_button1:
  assumes "menu_h_ok c" "menuState w = MENU_ROOT c"
  shows "length es \<le> 96 \<Longrightarrow>
           run c (Feed (MENU_EVENT_PUSH_BUTTON1 c) e0 # map Tick es) w
           = w\<lparr>timer := of_nat (length es), menuDisplay := MENU_SET_TIMER c\<rparr>"
    and "length es = 96 \<Longrightarrow> getButton1 e \<Longrightarrow>
           run c (Feed (MENU_EVENT_PUSH_BUTTON1 c) e0 # map Tick (es @ [e])) w
           = w\<lparr>timer := 0, calls := calls w @ [setParamId 0],
               menuState := MENU_SELECT_PARAM c, menuDisplay := MENU_SELECT_PARAM c\<rparr>"
proof -
  let ?w1 = "w\<lparr>timer := 0, menuDisplay := MENU_SET_TIMER c\<rparr>"
  have p: "feedMenu c e0 (MENU_EVENT_PUSH_BUTTON1 c) w = ?w1"
    using assms(2) by (simp add: feedMenu_def feedMenu_ROOT_def)
  have idle: "run c (map Tick es) ?w1 = ?w1\<lparr>timer := of_nat (0 + length es)\<rparr>"
    if "length es \<le> 96"
    using assms that by (intro ticks_ROOT_idle) simp_all
  show "run c (Feed (MENU_EVENT_PUSH_BUTTON1 c) e0 # map Tick es) w
           = w\<lparr>timer := of_nat (length es), menuDisplay := MENU_SET_TIMER c\<rparr>"
    if "length es \<le> 96"
    using idle [OF that] by (simp add: p)
  show "run c (Feed (MENU_EVENT_PUSH_BUTTON1 c) e0 # map Tick (es @ [e])) w
           = w\<lparr>timer := 0, calls := calls w @ [setParamId 0],
               menuState := MENU_SELECT_PARAM c, menuDisplay := MENU_SELECT_PARAM c\<rparr>"
    if l: "length es = 96" and b: "getButton1 e"
  proof -
    let ?w2 = "w\<lparr>timer := 96, menuDisplay := MENU_SET_TIMER c\<rparr>"
    have "run c (map Tick es) ?w1 = ?w2" using idle l by simp
    moreover have "refreshMenu c e ?w2 = ?w2\<lparr>timer := 0, calls := calls ?w2 @ [setParamId 0],
       menuState := MENU_SELECT_PARAM c, menuDisplay := MENU_SELECT_PARAM c\<rparr>"
      using assms b by (intro tick_ROOT_97) simp_all
    ultimately show ?thesis by (simp add: p run_append)
  qed
qed

lemma menu_times:
  "MENU_1_SEC_PASSED = 32" "MENU_3_SEC_PASSED = 96" "MENU_5_SEC_PASSED = 160"
  "MENU_AUTOINC_DELAY = 4" "MENU_1_SEC_PASSED + MENU_AUTOINC_DELAY = 36"
proof -
  show 1: "MENU_1_SEC_PASSED = 32" by (simp add: MENU_1_SEC_PASSED_def)
  show "MENU_3_SEC_PASSED = 96" by (simp add: MENU_3_SEC_PASSED_def 1)
  show "MENU_5_SEC_PASSED = 160" by (simp add: MENU_5_SEC_PASSED_def 1)
  have "unat (32 div 8 :: 16 word) = 4" by (simp add: unat_div)
  then have "(32 div 8 :: 16 word) = 4" by (simp add: word_unat_eq_iff)
  then show 4: "MENU_AUTOINC_DELAY = 4" by (simp only: MENU_AUTOINC_DELAY_def 1)
  show "MENU_1_SEC_PASSED + MENU_AUTOINC_DELAY = 36" by (simp add: 1 4)
qed

lemma repeat_timer_low: "k < 32 \<Longrightarrow> repeat_timer k = k"
  by (simp add: repeat_timer_def)

lemma repeat_timer_high: "repeat_timer (32 + j) = 32 + j mod 5"
  by (simp add: repeat_timer_def)

lemma mod5_le: "(j :: nat) mod 5 \<le> 4"
proof -
  have "j mod 5 < 5" by (rule mod_less_divisor) simp
  then show ?thesis by (simp only: less_Suc_eq_le eval_nat_numeral)
qed

lemma repeat_timer_le: "repeat_timer k \<le> 36"
proof (cases "k < 32")
  case True
  then show ?thesis by (simp add: repeat_timer_low)
next
  case False
  then obtain j where k: "k = 32 + j" using le_Suc_ex [of 32 k] by auto
  show ?thesis unfolding k repeat_timer_high using mod5_le [of j] by simp
qed

lemma repeat_timer_wrap:
  assumes "repeat_timer k = 36"
  shows "repeat_timer (Suc k) = 32" "(Suc k - 32) div 5 = (k - 32) div 5 + 1"
proof -
  have "32 \<le> k" using assms by (simp add: repeat_timer_def split: if_splits)
  then obtain j where k: "k = 32 + j" using le_Suc_ex [of 32 k] by auto
  have m: "j mod 5 = 4" using assms unfolding k repeat_timer_high by simp
  have m': "Suc j mod 5 = 0" using m by (simp add: mod_Suc)
  have "repeat_timer (32 + Suc j) = 32" unfolding repeat_timer_high using m' by simp
  then show "repeat_timer (Suc k) = 32" by (simp add: k)
  have "Suc j div 5 = j div 5 + 1" using m' by (simp add: div_Suc)
  then show "(Suc k - 32) div 5 = (k - 32) div 5 + 1" by (simp add: k)
qed

lemma repeat_timer_count:
  assumes "repeat_timer k \<noteq> 36"
  shows "repeat_timer (Suc k) = Suc (repeat_timer k)" "(Suc k - 32) div 5 = (k - 32) div 5"
proof -
  have "repeat_timer (Suc k) = Suc (repeat_timer k) \<and> (Suc k - 32) div 5 = (k - 32) div 5"
  proof (cases "k < 32")
    case True
    have "repeat_timer (Suc k) = Suc k"
    proof (cases "Suc k < 32")
      case True
      then show ?thesis by (rule repeat_timer_low)
    next
      case False
      with \<open>k < 32\<close> have "Suc k = 32 + 0" by simp
      then show ?thesis using repeat_timer_high [of 0] by simp
    qed
    then show ?thesis using True by (simp add: repeat_timer_low)
  next
    case False
    then obtain j where k: "k = 32 + j" using le_Suc_ex [of 32 k] by auto
    have m: "j mod 5 \<noteq> 4" using assms unfolding k repeat_timer_high by simp
    have m': "Suc j mod 5 = Suc (j mod 5)" using m by (simp add: mod_Suc)
    have "repeat_timer (32 + Suc j) = Suc (repeat_timer (32 + j))"
      unfolding repeat_timer_high using m' by simp
    moreover have "Suc j div 5 = j div 5" using m' by (simp add: div_Suc)
    ultimately show ?thesis by (simp add: k)
  qed
  then show "repeat_timer (Suc k) = Suc (repeat_timer k)" "(Suc k - 32) div 5 = (k - 32) div 5"
    by simp_all
qed

text \<open>The push of button 2 in SET_TIMER.\<close>

lemma push2_SET_TIMER:
  assumes "menu_h_ok c" "menuState w = MENU_SET_TIMER c"
  shows "feedMenu c e (MENU_EVENT_PUSH_BUTTON2 c) w =
     w\<lparr>timer := 0, calls := calls w @ [setParamId (PARAM_FERMENTATION_TIME c), incParam]\<rparr>"
  using assms(2) menu_h_ok_events [OF assms(1)] menu_h_ok_sections [OF assms(1)]
  by (simp add: feedMenu_def feedMenu_SET_TIMER_def call_def)

text \<open>A tick in SET_TIMER with button 2 held.\<close>

lemma tick_SET_TIMER_button2:
  assumes "menu_h_ok c" "menuState w = MENU_SET_TIMER c" "getButton2 e"
    and "timer w = of_nat t" "t \<le> 36"
  shows "refreshMenu c e w =
     (if t = 36
      then w\<lparr>timer := 32, displayOff := False,
             calls := calls w @ [setParamId (PARAM_FERMENTATION_TIME c), incParam]\<rparr>
      else w\<lparr>timer := of_nat (Suc t), displayOff := False\<rparr>)"
proof -
  have g: "(of_nat t + 1 :: 16 word) > 36 \<longleftrightarrow> t = 36"
    using assms(5) timer_gt [of "Suc t" 36] by (simp add: add.commute) linarith
  have h: "\<not> (of_nat t + 1 :: 16 word) > 160"
    using assms(5) timer_gt [of "Suc t" 160] by (simp add: add.commute)
  have n: "\<not> (160 :: 16 word) < 32" by (simp add: word_less_nat_alt)
  show ?thesis
    using assms(2-4) g h n menu_h_ok_events [OF assms(1)] menu_h_ok_sections [OF assms(1)]
    by (simp add: refreshMenu_def feedMenu_def feedMenu_SET_TIMER_def Let_def call_def
        setDisplayOff_def menu_times add.commute)
qed

text \<open>
  Ticks in SET_TIMER with button 2 held, \<open>k\<close> ticks after the timer was reset: the state
  stays SET_TIMER, the timer follows \<open>repeat_timer\<close>, and \<open>incParam\<close> is called on every
  tick at which the timer had reached 36.
\<close>

lemma ticks_SET_TIMER_button2:
  assumes "menu_h_ok c" "\<forall>e \<in> set es. getButton2 e"
    and "menuState w = MENU_SET_TIMER c" "timer w = of_nat (repeat_timer k)"
  shows "menuState (run c (map Tick es) w) = MENU_SET_TIMER c
    \<and> timer (run c (map Tick es) w) = of_nat (repeat_timer (k + length es))
    \<and> count_list (calls (run c (map Tick es) w)) incParam + (k - 32) div 5
        = count_list (calls w) incParam + (k + length es - 32) div 5"
  using assms(2-)
proof (induction es arbitrary: w k)
  case Nil
  then show ?case by simp
next
  case (Cons e es)
  let ?w = "refreshMenu c e w"
  have b: "getButton2 e" and bs: "\<forall>e \<in> set es. getButton2 e" using Cons.prems(1) by simp_all
  have t: "?w = (if repeat_timer k = 36
      then w\<lparr>timer := 32, displayOff := False,
             calls := calls w @ [setParamId (PARAM_FERMENTATION_TIME c), incParam]\<rparr>
      else w\<lparr>timer := of_nat (Suc (repeat_timer k)), displayOff := False\<rparr>)"
    using assms(1) Cons.prems(2) b Cons.prems(3) repeat_timer_le
    by (rule tick_SET_TIMER_button2)
  have st: "menuState ?w = MENU_SET_TIMER c" using Cons.prems(2) by (simp add: t)
  have tm: "timer ?w = of_nat (repeat_timer (Suc k))"
    using repeat_timer_wrap(1) [of k] repeat_timer_count(1) [of k] by (simp add: t)
  have cnt: "count_list (calls ?w) incParam + (k - 32) div 5
             = count_list (calls w) incParam + (Suc k - 32) div 5"
    using repeat_timer_wrap(2) [of k] repeat_timer_count(2) [of k] by (simp add: t)
  have ih: "menuState (run c (map Tick es) ?w) = MENU_SET_TIMER c
    \<and> timer (run c (map Tick es) ?w) = of_nat (repeat_timer (Suc k + length es))
    \<and> count_list (calls (run c (map Tick es) ?w)) incParam + (Suc k - 32) div 5
        = count_list (calls ?w) incParam + (Suc k + length es - 32) div 5"
    using bs st tm by (rule Cons.IH)
  have r: "run c (map Tick (e # es)) w = run c (map Tick es) ?w" by simp
  show ?case unfolding r using ih cnt by simp
qed

lemma env_buttons:
  "getButton1 env_button1" "getButton2 env_button2"
  "\<not> getButton1 env_released" "\<not> getButton2 env_released" "\<not> getButton3 env_released"
  by (simp_all add: getButton1_def getButton2_def getButton3_def env_button1_def env_button2_def
      env_released_def BUTTON1_BIT_def BUTTON2_BIT_def BUTTON3_BIT_def)

lemma div5_from_37: "((n :: nat) - 32) div 5 = (if n < 37 then 0 else 1 + (n - 37) div 5)"
proof (cases "n < 37")
  case True
  then have "n - 32 < 5" by simp
  then show ?thesis using True by simp
next
  case False
  then have "n - 32 = (n - 37) + 5" by simp
  then have "(n - 32) div 5 = (n - 37 + 5) div 5" by (simp only:)
  then show ?thesis using False by simp
qed

text \<open>Button 2 pushed in SET_TIMER and held through the ticks that follow.\<close>

lemma hold_button2:
  assumes "menu_h_ok c" "menuState w = MENU_SET_TIMER c" "\<forall>e \<in> set es. getButton2 e"
  shows "menuState (run c (Feed (MENU_EVENT_PUSH_BUTTON2 c) e0 # map Tick es) w) = MENU_SET_TIMER c"
    and "count_list (calls (run c (Feed (MENU_EVENT_PUSH_BUTTON2 c) e0 # map Tick es) w)) incParam
         = count_list (calls w) incParam + 1 + (length es - 32) div 5"
proof -
  let ?w1 = "w\<lparr>timer := 0, calls := calls w @ [setParamId (PARAM_FERMENTATION_TIME c), incParam]\<rparr>"
  have p: "feedMenu c e0 (MENU_EVENT_PUSH_BUTTON2 c) w = ?w1"
    using assms(1,2) by (rule push2_SET_TIMER)
  have "menuState ?w1 = MENU_SET_TIMER c" using assms(2) by simp
  moreover have "timer ?w1 = of_nat (repeat_timer 0)" by (simp add: repeat_timer_def)
  ultimately have t: "menuState (run c (map Tick es) ?w1) = MENU_SET_TIMER c
    \<and> timer (run c (map Tick es) ?w1) = of_nat (repeat_timer (0 + length es))
    \<and> count_list (calls (run c (map Tick es) ?w1)) incParam + (0 - 32) div 5
        = count_list (calls ?w1) incParam + (0 + length es - 32) div 5"
    using assms(1,3) by (intro ticks_SET_TIMER_button2)
  show "menuState (run c (Feed (MENU_EVENT_PUSH_BUTTON2 c) e0 # map Tick es) w) = MENU_SET_TIMER c"
    using t by (simp add: p)
  show "count_list (calls (run c (Feed (MENU_EVENT_PUSH_BUTTON2 c) e0 # map Tick es) w)) incParam
         = count_list (calls w) incParam + 1 + (length es - 32) div 5"
    using t by (simp add: p)
qed

text \<open>From \<open>initMenu\<close>, pushing and releasing button 1 leads to SET_TIMER.\<close>

lemma enter_SET_TIMER:
  "run menu_h_example
     [Feed (MENU_EVENT_PUSH_BUTTON1 menu_h_example) env_button1,
      Feed (MENU_EVENT_RELEASE_BUTTON1 menu_h_example) env_released]
     (initMenu menu_h_example world_reset)
   = \<lparr>menuDisplay = 3, menuState = 3, timer = 0, displayOff = False, calls = []\<rparr>"
proof -
  have n: "(0 :: 16 word) < 160" by (simp add: word_less_nat_alt)
  show ?thesis
    using n by (simp add: initMenu_def world_reset_def menu_h_example_def feedMenu_def
      feedMenu_ROOT_def menu_times)
qed

lemma concat_replicate_snoc:
  "concat (replicate m p) @ p = concat (replicate (Suc m) p)"
proof -
  have "concat (replicate m p) @ p = concat (replicate m p @ [p])" by simp
  also have "\<dots> = concat (replicate (Suc m) p)" by (simp only: replicate_append_same) simp
  finally show ?thesis .
qed

text \<open>
  The calls made by those ticks: each tick at which the timer had reached 36 selects the
  fermentation-time parameter and increments it, and no other call is made.
\<close>

lemma ticks_SET_TIMER_button2_calls:
  assumes "menu_h_ok c" "\<forall>e \<in> set es. getButton2 e"
    and "menuState w = MENU_SET_TIMER c" "timer w = of_nat (repeat_timer k)"
    and "calls w = base @ concat (replicate ((k - 32) div 5)
                                   [setParamId (PARAM_FERMENTATION_TIME c), incParam])"
  shows "calls (run c (map Tick es) w)
         = base @ concat (replicate ((k + length es - 32) div 5)
                            [setParamId (PARAM_FERMENTATION_TIME c), incParam])"
  using assms(2-)
proof (induction es arbitrary: w k)
  case Nil
  then show ?case by simp
next
  case (Cons e es)
  let ?P = "[setParamId (PARAM_FERMENTATION_TIME c), incParam]"
  let ?w = "refreshMenu c e w"
  have b: "getButton2 e" and bs: "\<forall>e \<in> set es. getButton2 e" using Cons.prems(1) by simp_all
  have t: "?w = (if repeat_timer k = 36
      then w\<lparr>timer := 32, displayOff := False, calls := calls w @ ?P\<rparr>
      else w\<lparr>timer := of_nat (Suc (repeat_timer k)), displayOff := False\<rparr>)"
    using assms(1) Cons.prems(2) b Cons.prems(3) repeat_timer_le
    by (rule tick_SET_TIMER_button2)
  have st: "menuState ?w = MENU_SET_TIMER c" using Cons.prems(2) by (simp add: t)
  have tm: "timer ?w = of_nat (repeat_timer (Suc k))"
    using repeat_timer_wrap(1) [of k] repeat_timer_count(1) [of k] by (simp add: t)
  have cl: "calls ?w = base @ concat (replicate ((Suc k - 32) div 5) ?P)"
  proof (cases "repeat_timer k = 36")
    case True
    have "calls ?w = (base @ concat (replicate ((k - 32) div 5) ?P)) @ ?P"
      using True Cons.prems(4) by (simp add: t)
    also have "\<dots> = base @ concat (replicate (Suc ((k - 32) div 5)) ?P)"
      by (simp only: append_assoc concat_replicate_snoc)
    finally show ?thesis using repeat_timer_wrap(2) [OF True] by simp
  next
    case False
    then have "calls ?w = calls w" by (simp add: t)
    then show ?thesis using repeat_timer_count(2) [OF False] Cons.prems(4) by simp
  qed
  have "calls (run c (map Tick es) ?w)
        = base @ concat (replicate ((Suc k + length es - 32) div 5) ?P)"
    using bs st tm cl by (rule Cons.IH)
  then show ?case by simp
qed

lemma hold_button2_calls:
  assumes "menu_h_ok c" "menuState w = MENU_SET_TIMER c" "\<forall>e \<in> set es. getButton2 e"
  shows "calls (run c (Feed (MENU_EVENT_PUSH_BUTTON2 c) e0 # map Tick es) w)
         = calls w @ concat (replicate (1 + (length es - 32) div 5)
                               [setParamId (PARAM_FERMENTATION_TIME c), incParam])"
proof -
  let ?P = "[setParamId (PARAM_FERMENTATION_TIME c), incParam]"
  let ?w1 = "w\<lparr>timer := 0, calls := calls w @ ?P\<rparr>"
  have p: "feedMenu c e0 (MENU_EVENT_PUSH_BUTTON2 c) w = ?w1"
    using assms(1,2) by (rule push2_SET_TIMER)
  have s: "menuState ?w1 = MENU_SET_TIMER c" using assms(2) by simp
  have t: "timer ?w1 = of_nat (repeat_timer 0)" by (simp add: repeat_timer_def)
  have c: "calls ?w1 = (calls w @ ?P) @ concat (replicate ((0 - 32) div 5) ?P)" by simp
  have "calls (run c (map Tick es) ?w1)
        = (calls w @ ?P) @ concat (replicate ((0 + length es - 32) div 5) ?P)"
    using assms(1,3) s t c by (rule ticks_SET_TIMER_button2_calls)
  then show ?thesis by (simp add: p)
qed

section \<open>Claims about the menu state machine\<close>

text \<open>
  C7, as amended. In state ROOT, a CHECK_TIMER event with the timer above the
  three-second threshold of 96 ticks resets the timer to 0 and does exactly one of: with
  button 1 held, set the parameter id to 0 and make state and mode SELECT_PARAM; otherwise
  with button 2 held, disable the relay if it is enabled and no fermentation timer runs,
  else enable it; otherwise with button 3 held, stop a running fermentation timer and
  disable the relay, else start the timer and enable the relay; otherwise nothing more.
  In particular, after button 1 is pushed in ROOT and held with no release, the first 96
  ticks only count the timer up (the state stays ROOT, the mode shows SET_TIMER), and the
  97th tick makes the transition to SELECT_PARAM with parameter id 0.
\<close>

theorem long_press_in_ROOT:
  assumes "menu_h_ok c" "menuState w = MENU_ROOT c"
  shows "(timer w > MENU_3_SEC_PASSED \<longrightarrow>
      feedMenu c e (MENU_EVENT_CHECK_TIMER c) w =
       (if getButton1 e then
          w\<lparr>timer := 0, calls := calls w @ [setParamId 0],
            menuState := MENU_SELECT_PARAM c, menuDisplay := MENU_SELECT_PARAM c\<rparr>
        else if getButton2 e then
          (if isRelayEnabled e \<and> \<not> isFTimer e
           then w\<lparr>timer := 0, calls := calls w @ [enableRelay False]\<rparr>
           else w\<lparr>timer := 0, calls := calls w @ [enableRelay True]\<rparr>)
        else if getButton3 e then
          (if isFTimer e
           then w\<lparr>timer := 0, calls := calls w @ [stopFTimer, enableRelay False]\<rparr>
           else w\<lparr>timer := 0, calls := calls w @ [startFTimer, enableRelay True]\<rparr>)
        else w\<lparr>timer := 0\<rparr>))
    \<and> (length es \<le> 96 \<longrightarrow>
      run c (Feed (MENU_EVENT_PUSH_BUTTON1 c) e0 # map Tick es) w
        = w\<lparr>timer := of_nat (length es), menuDisplay := MENU_SET_TIMER c\<rparr>)
    \<and> (length es = 96 \<and> getButton1 e \<longrightarrow>
      run c (Feed (MENU_EVENT_PUSH_BUTTON1 c) e0 # map Tick (es @ [e])) w
        = w\<lparr>timer := 0, calls := calls w @ [setParamId 0],
            menuState := MENU_SELECT_PARAM c, menuDisplay := MENU_SELECT_PARAM c\<rparr>)"
  using check_ROOT_3s [OF assms, of e]
    hold_button1(1) [OF assms, where es = es and ?e0.0 = e0]
    hold_button1(2) [OF assms, where es = es and ?e0.0 = e0 and e = e]
  by blast

theorem long_press_in_ROOT_witness:
  "menu_h_ok menu_h_example
   \<and> menuState (world_reset\<lparr>timer := 97\<rparr>) = MENU_ROOT menu_h_example
   \<and> timer (world_reset\<lparr>timer := 97\<rparr>) > MENU_3_SEC_PASSED
   \<and> length (replicate 96 env_button1) = 96 \<and> getButton1 env_button1
   \<and> feedMenu menu_h_example env_button1 (MENU_EVENT_CHECK_TIMER menu_h_example)
        (world_reset\<lparr>timer := 97\<rparr>)
      = \<lparr>menuDisplay = 1, menuState = 1, timer = 0, displayOff = False, calls = [setParamId 0]\<rparr>
   \<and> run menu_h_example
        (Feed (MENU_EVENT_PUSH_BUTTON1 menu_h_example) env_button1
           # map Tick (replicate 96 env_button1 @ [env_button1]))
        (world_reset\<lparr>timer := 97\<rparr>)
      = \<lparr>menuDisplay = 1, menuState = 1, timer = 0, displayOff = False, calls = [setParamId 0]\<rparr>"
proof -
  have s: "menuState (world_reset\<lparr>timer := 97\<rparr>) = MENU_ROOT menu_h_example"
    by (simp add: world_reset_def menu_h_example_def)
  have t: "timer (world_reset\<lparr>timer := 97\<rparr>) > MENU_3_SEC_PASSED"
    by (simp add: world_reset_def menu_times word_less_nat_alt)
  show ?thesis
    using menu_h_example_ok s t env_buttons(1)
      long_press_in_ROOT [OF menu_h_example_ok s, of env_button1 "replicate 96 env_button1"
        env_button1]
    by (simp add: world_reset_def menu_h_example_def)
qed

text \<open>
  C7 as stated fails in its scenario: from \<open>initMenu\<close>, with button 1 pushed and held,
  the state after 96 ticks is still ROOT, not SELECT_PARAM, and no parameter id has been
  set.
\<close>

theorem long_press_96_ticks_still_ROOT:
  "getButton1 env_button1
   \<and> run menu_h_example
        (Feed (MENU_EVENT_PUSH_BUTTON1 menu_h_example) env_button1
           # map Tick (replicate 96 env_button1))
        (initMenu menu_h_example world_reset)
      = \<lparr>menuDisplay = MENU_SET_TIMER menu_h_example, menuState = MENU_ROOT menu_h_example,
         timer = 96, displayOff = False, calls = []\<rparr>
   \<and> MENU_ROOT menu_h_example \<noteq> MENU_SELECT_PARAM menu_h_example"
proof -
  have s: "menuState (initMenu menu_h_example world_reset) = MENU_ROOT menu_h_example"
    by (simp add: initMenu_def)
  have "run menu_h_example
        (Feed (MENU_EVENT_PUSH_BUTTON1 menu_h_example) env_button1
           # map Tick (replicate 96 env_button1))
        (initMenu menu_h_example world_reset)
      = (initMenu menu_h_example world_reset)
          \<lparr>timer := of_nat (length (replicate 96 env_button1)),
           menuDisplay := MENU_SET_TIMER menu_h_example\<rparr>"
    using menu_h_example_ok s by (rule hold_button1(1)) simp
  then show ?thesis
    using env_buttons(1) by (simp add: initMenu_def world_reset_def menu_h_example_def)
qed

text \<open>
  C8, as amended. Starting in SET_TIMER with button 2 held across the ticks, the
  PUSH_BUTTON2 event selects the fermentation-time parameter and increments it once
  immediately; the auto-repeat selects and increments it again for the first time on the
  37th tick after the push and from then on exactly once every 5 ticks, not on every tick.
  These selections and increments of the fermentation-time parameter are the only calls
  made, and the state stays SET_TIMER.
\<close>

theorem auto_repeat_cadence:
  assumes "menu_h_ok c" "menuState w = MENU_SET_TIMER c" "\<forall>e \<in> set es. getButton2 e"
  shows "calls (feedMenu c e0 (MENU_EVENT_PUSH_BUTTON2 c) w)
           = calls w @ [setParamId (PARAM_FERMENTATION_TIME c), incParam]
    \<and> menuState (run c (Feed (MENU_EVENT_PUSH_BUTTON2 c) e0 # map Tick es) w) = MENU_SET_TIMER c
    \<and> count_list (calls (run c (Feed (MENU_EVENT_PUSH_BUTTON2 c) e0 # map Tick es) w)) incParam
        = count_list (calls w) incParam + 1
          + (if length es < 37 then 0 else 1 + (length es - 37) div 5)
    \<and> calls (run c (Feed (MENU_EVENT_PUSH_BUTTON2 c) e0 # map Tick es) w)
        = calls w
          @ concat (replicate (1 + (if length es < 37 then 0 else 1 + (length es - 37) div 5))
                      [setParamId (PARAM_FERMENTATION_TIME c), incParam])"
  using push2_SET_TIMER [OF assms(1,2), of e0] hold_button2 [OF assms, of e0]
    hold_button2_calls [OF assms, of e0]
  by (simp add: div5_from_37)

theorem auto_repeat_cadence_witness:
  "menu_h_ok menu_h_example
   \<and> menuState (world_reset\<lparr>menuState := 3\<rparr>) = MENU_SET_TIMER menu_h_example
   \<and> getButton2 env_button2
   \<and> count_list
        (calls (run menu_h_example
           (Feed (MENU_EVENT_PUSH_BUTTON2 menu_h_example) env_button2
              # map Tick (replicate 47 env_button2))
           (world_reset\<lparr>menuState := 3\<rparr>)))
        incParam = 4
   \<and> calls (run menu_h_example
           (Feed (MENU_EVENT_PUSH_BUTTON2 menu_h_example) env_button2
              # map Tick (replicate 47 env_button2))
           (world_reset\<lparr>menuState := 3\<rparr>))
       = [setParamId (PARAM_FERMENTATION_TIME menu_h_example), incParam,
          setParamId (PARAM_FERMENTATION_TIME menu_h_example), incParam,
          setParamId (PARAM_FERMENTATION_TIME menu_h_example), incParam,
          setParamId (PARAM_FERMENTATION_TIME menu_h_example), incParam]"
proof -
  have s: "menuState (world_reset\<lparr>menuState := 3\<rparr>) = MENU_SET_TIMER menu_h_example"
    by (simp add: menu_h_example_def)
  have b: "\<forall>e \<in> set (replicate 47 env_button2). getButton2 e"
    by (simp add: env_buttons)
  have r: "replicate (Suc (Suc (Suc (Suc 0)))) x = [x, x, x, x]" for x :: "call list"
    by simp
  have n: "1 + (if length (replicate 47 env_button2) < 37 then 0
                else 1 + (length (replicate 47 env_button2) - 37) div 5)
           = Suc (Suc (Suc (Suc 0)))"
    by simp
  have c: "calls (world_reset\<lparr>menuState := 3\<rparr>) = []" by (simp add: world_reset_def)
  show ?thesis
    using menu_h_example_ok s env_buttons(2)
      auto_repeat_cadence [OF menu_h_example_ok s b, of env_button2]
    unfolding n r c by simp
qed

text \<open>
  C8 as stated fails: from \<open>initMenu\<close>, after button 1 is pushed and released (state
  SET_TIMER) and button 2 is pushed and held, the parameter has been incremented once
  after 32 ticks, twice after 37 ticks and three times after 42 ticks: the repeats are 5
  ticks apart, not 32.
\<close>

theorem auto_repeat_every_5_ticks:
  "getButton2 env_button2
   \<and> count_list
        (calls (run menu_h_example
           ([Feed (MENU_EVENT_PUSH_BUTTON1 menu_h_example) env_button1,
             Feed (MENU_EVENT_RELEASE_BUTTON1 menu_h_example) env_released]
            @ Feed (MENU_EVENT_PUSH_BUTTON2 menu_h_example) env_button2
              # map Tick (replicate 32 env_button2))
           (initMenu menu_h_example world_reset)))
        incParam = 1
   \<and> count_list
        (calls (run menu_h_example
           ([Feed (MENU_EVENT_PUSH_BUTTON1 menu_h_example) env_button1,
             Feed (MENU_EVENT_RELEASE_BUTTON1 menu_h_example) env_released]
            @ Feed (MENU_EVENT_PUSH_BUTTON2 menu_h_example) env_button2
              # map Tick (replicate 37 env_button2))
           (initMenu menu_h_example world_reset)))
        incParam = 2
   \<and> count_list
        (calls (run menu_h_example
           ([Feed (MENU_EVENT_PUSH_BUTTON1 menu_h_example) env_button1,
             Feed (MENU_EVENT_RELEASE_BUTTON1 menu_h_example) env_released]
            @ Feed (MENU_EVENT_PUSH_BUTTON2 menu_h_example) env_button2
              # map Tick (replicate 42 env_button2))
           (initMenu menu_h_example world_reset)))
        incParam = 3"
proof -
  let ?w = "\<lparr>menuDisplay = 3, menuState = 3, timer = 0, displayOff = False, calls = []\<rparr>"
  have s: "menuState ?w = MENU_SET_TIMER menu_h_example" by (simp add: menu_h_example_def)
  have c: "count_list (calls (run menu_h_example
              (Feed (MENU_EVENT_PUSH_BUTTON2 menu_h_example) env_button2
                # map Tick (replicate n env_button2)) ?w)) incParam
           = count_list (calls ?w) incParam + 1 + (length (replicate n env_button2) - 32) div 5"
    for n
    using menu_h_example_ok s by (rule hold_button2(2)) (simp add: env_buttons)
  show ?thesis
    using env_buttons(2) c [of 32] c [of 37] c [of 42]
    by (simp only: run_append enter_SET_TIMER) simp
qed

text \<open>
  C9. In every state reached from \<open>initMenu\<close> by any sequence of \<open>feedMenu\<close> and
  \<open>refreshMenu\<close> calls, \<open>menuState\<close> equals \<open>menuDisplay\<close>, or \<open>menuState\<close> is ROOT
  while \<open>menuDisplay\<close> is SET_TIMER, or \<open>menuState\<close> is SET_TIMER while \<open>menuDisplay\<close>
  is ROOT; no other pair occurs.
\<close>

theorem state_display_divergence:
  "menuState (run c is (initMenu c w)) = menuDisplay (run c is (initMenu c w))
   \<or> (menuState (run c is (initMenu c w)) = MENU_ROOT c
       \<and> menuDisplay (run c is (initMenu c w)) = MENU_SET_TIMER c)
   \<or> (menuState (run c is (initMenu c w)) = MENU_SET_TIMER c
       \<and> menuDisplay (run c is (initMenu c w)) = MENU_ROOT c)"
  using run_pair [OF initMenu_pair, of c "is" w] unfolding state_display_pair_def .

text \<open>
  C10. After \<open>initMenu\<close>, whatever event bytes are fed (also bytes that are none of the
  seven events) and whatever the collaborators answer, \<open>menuState\<close> and \<open>menuDisplay\<close> are
  each one of MENU_ROOT, MENU_SELECT_PARAM, MENU_CHANGE_PARAM and MENU_SET_TIMER, so
  \<open>getMenuDisplay\<close> never returns a value that sends \<open>main\<close> to its unknown-state branch.
\<close>

theorem sections_always_known:
  "menuState (run c is (initMenu c w))
     \<in> {MENU_ROOT c, MENU_SELECT_PARAM c, MENU_CHANGE_PARAM c, MENU_SET_TIMER c}
   \<and> getMenuDisplay (run c is (initMenu c w))
     \<in> {MENU_ROOT c, MENU_SELECT_PARAM c, MENU_CHANGE_PARAM c, MENU_SET_TIMER c}"
  using run_known [OF initMenu_known, of c "is" w]
  unfolding sections_known_def known_sections_def getMenuDisplay_def .


end
